theory Spec2Isabelle
  imports Complex_Main
begin

section \<open>Numbers of the source language\<close>

text \<open>
  The program is JavaScript: every number is an IEEE double. The finite doubles are
  idealised as \<^typ>\<open>real\<close> (no rounding, no overflow); what is kept of the
  non-finite values is what the program can produce from finite inputs:
  \<^item> a read past the end of an array (or at a negative index) gives \<open>undefined\<close>,
    which arithmetic turns into \<open>NaN\<close>; both are \<open>None\<close> of \<^typ>\<open>real option\<close>;
  \<^item> a division whose divisor is zero gives \<open>NaN\<close> (\<open>0 / 0\<close>) or an infinity.
\<close>

datatype jsnum = Num real | PosInf | NegInf | NaN

definition js_div :: "real \<Rightarrow> real \<Rightarrow> jsnum" where
  "js_div a b =
     (if b \<noteq> 0 then Num (a / b)
      else if a = 0 then NaN
      else if 0 < a then PosInf else NegInf)"

text \<open>The comparison \<open>a <= b\<close> of the language: false as soon as one side is \<open>NaN\<close>.\<close>

fun js_le :: "jsnum \<Rightarrow> jsnum \<Rightarrow> bool" where
  "js_le NaN _ = False"
| "js_le _ NaN = False"
| "js_le (Num a) (Num b) = (a \<le> b)"
| "js_le NegInf _ = True"
| "js_le _ PosInf = True"
| "js_le _ _ = False"

text \<open>\<open>lo <= v && v <= hi\<close> for a number \<open>v\<close> of the language and real bounds.\<close>

definition js_between :: "real \<Rightarrow> real \<Rightarrow> jsnum \<Rightarrow> bool" where
  "js_between lo hi v = (js_le (Num lo) v \<and> js_le v (Num hi))"

text \<open>\<open>xs[k]\<close> for an integer \<open>k\<close>: \<open>undefined\<close> outside \<open>0 .. xs.length - 1\<close>.\<close>

definition js_index :: "'a list \<Rightarrow> int \<Rightarrow> 'a option" where
  "js_index xs k = (if 0 \<le> k \<and> k < int (length xs) then Some (xs ! nat k) else None)"

text \<open>Subtraction, addition, \<open>Math.pow(x, 2)\<close>, \<open>Math.sqrt\<close>, \<open>Math.abs\<close> and \<open><=\<close>
  on values that may be \<open>undefined\<close> or \<open>NaN\<close>.\<close>

fun js_sub :: "real option \<Rightarrow> real option \<Rightarrow> real option" where
  "js_sub (Some x) (Some y) = Some (x - y)"
| "js_sub _ _ = None"

fun js_add :: "real option \<Rightarrow> real option \<Rightarrow> real option" where
  "js_add (Some x) (Some y) = Some (x + y)"
| "js_add _ _ = None"

fun js_pow2 :: "real option \<Rightarrow> real option" where
  "js_pow2 (Some x) = Some (x ^ 2)"
| "js_pow2 None = None"

fun js_sqrt :: "real option \<Rightarrow> real option" where
  "js_sqrt (Some x) = (if 0 \<le> x then Some (sqrt x) else None)"
| "js_sqrt None = None"


fun js_leq :: "real option \<Rightarrow> real \<Rightarrow> bool" where
  "js_leq (Some x) t = (x \<le> t)"
| "js_leq None t = False"


section \<open>Recurrence matrix (RQAVisualization.jsx)\<close>

subsection \<open>computeRecurrenceMatrix\<close>

text \<open>
  The embedding dimension and the delay are integers of any sign; the signal is a list
  of finite numbers. A loop \<open>for (let i = 0; i < n; i++)\<close> that pushes one element per
  round is the \<open>map\<close> over \<open>[0..<nat n]\<close> (no round when \<open>n \<le> 0\<close>).

  \<open>embeddedVectors\<close> is the first loop of \<open>computeRecurrenceMatrix\<close> (the array
  \<open>vectors\<close>): the delay embedding.
\<close>

definition embeddedVectors :: "real list \<Rightarrow> int \<Rightarrow> int \<Rightarrow> real option list list" where
  "embeddedVectors signal embeddingDim delay =
     (let n = int (length signal) - (embeddingDim - 1) * delay
      in map (\<lambda>i. map (\<lambda>d. js_index signal (int i + int d * delay)) [0..<nat embeddingDim])
             [0..<nat n])"

text \<open>The innermost loop: \<open>dist += Math.pow(vectors[i][d] - vectors[j][d], 2)\<close> from
  \<open>dist = 0\<close>, then \<open>Math.sqrt(dist)\<close>. Both vectors have \<open>embeddingDim\<close> entries, so
  \<open>vi ! d\<close> and \<open>vj ! d\<close> are in range.\<close>

definition euclideanDist :: "int \<Rightarrow> real option list \<Rightarrow> real option list \<Rightarrow> real option" where
  "euclideanDist embeddingDim vi vj =
     js_sqrt (fold (\<lambda>d dist. js_add dist (js_pow2 (js_sub (vi ! d) (vj ! d))))
                   [0..<nat embeddingDim] (Some 0))"

definition computeRecurrenceMatrix :: "real list \<Rightarrow> real \<Rightarrow> int \<Rightarrow> int \<Rightarrow> nat list list" where
  "computeRecurrenceMatrix signal threshold embeddingDim delay =
     (let n = int (length signal) - (embeddingDim - 1) * delay;
          vectors = embeddedVectors signal embeddingDim delay
      in map (\<lambda>i. map (\<lambda>j. if js_leq (euclideanDist embeddingDim (vectors ! i) (vectors ! j)) threshold
                             then 1 else 0)
                       [0..<nat n])
             [0..<nat n])"


subsection \<open>Line segments\<close>

text \<open>
  A segment is the object \<open>{ start: {i, j}, length, type, k }\<close>; \<open>k\<close> is present on
  diagonal segments only, and \<open>start\<close> is \<open>null\<close> (\<open>None\<close>) until a first 1 has been seen.
\<close>

datatype orientation = Diagonal | Vertical | Horizontal

record line =
  line_start :: "(nat \<times> nat) option"
  line_length :: nat
  line_type :: orientation
  line_k :: "int option"

text \<open>\<open>matrix[i][j] === 1\<close>. Every loop below keeps \<open>i < matrix.length\<close>; a row shorter
  than \<open>j\<close> gives \<open>undefined\<close>, which is not 1.\<close>

definition cell :: "nat list list \<Rightarrow> nat \<Rightarrow> nat \<Rightarrow> bool" where
  "cell matrix i j = (j < length (matrix ! i) \<and> matrix ! i ! j = 1)"

text \<open>
  The four scans of the source (upper diagonals, lower diagonals, columns, rows) have
  the same loop body; they differ in the cells \<open>(i, j)\<close> the inner loop visits and in the
  \<open>type\<close> and \<open>k\<close> written on a segment. The state of the inner loop is
  \<open>(lineLength, lineStart, lines)\<close>; \<open>scanCell\<close> is one round of it, \<open>scanLine\<close> the
  whole inner loop from \<open>lineLength = 0\<close>, \<open>lineStart = null\<close>, followed by the test after it.
\<close>

type_synonym scan = "nat \<times> (nat \<times> nat) option \<times> line list"

definition scanCell ::
  "nat list list \<Rightarrow> nat \<Rightarrow> orientation \<Rightarrow> int option \<Rightarrow> nat \<times> nat \<Rightarrow> scan \<Rightarrow> scan" where
  "scanCell matrix minLength ty k ij st =
     (case st of (lineLength, lineStart, lines) \<Rightarrow>
        if cell matrix (fst ij) (snd ij)
        then (lineLength + 1, (if lineLength = 0 then Some ij else lineStart), lines)
        else (0, lineStart,
              if minLength \<le> lineLength
              then lines @ [\<lparr>line_start = lineStart, line_length = lineLength,
                              line_type = ty, line_k = k\<rparr>]
              else lines))"

definition scanLine ::
  "nat list list \<Rightarrow> nat \<Rightarrow> orientation \<Rightarrow> int option \<Rightarrow> (nat \<times> nat) list \<Rightarrow> line list
     \<Rightarrow> line list" where
  "scanLine matrix minLength ty k cells lines0 =
     (case fold (scanCell matrix minLength ty k) cells (0, None, lines0) of
        (lineLength, lineStart, lines) \<Rightarrow>
          if minLength \<le> lineLength
          then lines @ [\<lparr>line_start = lineStart, line_length = lineLength,
                          line_type = ty, line_k = k\<rparr>]
          else lines)"

text \<open>The cells visited by each inner loop, in order.\<close>

definition upperDiagonalCells :: "nat \<Rightarrow> nat \<Rightarrow> (nat \<times> nat) list" where
  "upperDiagonalCells n k = map (\<lambda>i. (i, i + k)) [0..<n - k]"

definition lowerDiagonalCells :: "nat \<Rightarrow> nat \<Rightarrow> (nat \<times> nat) list" where
  "lowerDiagonalCells n k = map (\<lambda>j. (j + k, j)) [0..<n - k]"

definition columnCells :: "nat \<Rightarrow> nat \<Rightarrow> (nat \<times> nat) list" where
  "columnCells n j = map (\<lambda>i. (i, j)) [0..<n]"

definition rowCells :: "nat \<Rightarrow> nat \<Rightarrow> (nat \<times> nat) list" where
  "rowCells n i = map (\<lambda>j. (i, j)) [0..<n]"

subsection \<open>findDiagonalLines, findVerticalLines, findHorizontalLines\<close>

definition findDiagonalLines :: "nat list list \<Rightarrow> nat \<Rightarrow> line list" where
  "findDiagonalLines matrix minLength =
     (let n = length matrix;
          upper = fold (\<lambda>k lines. scanLine matrix minLength Diagonal (Some (int k))
                                     (upperDiagonalCells n k) lines)
                       [1..<n] []
      in fold (\<lambda>k lines. scanLine matrix minLength Diagonal (Some (- int k))
                             (lowerDiagonalCells n k) lines)
              [1..<n] upper)"

definition findVerticalLines :: "nat list list \<Rightarrow> nat \<Rightarrow> line list" where
  "findVerticalLines matrix minLength =
     (let n = length matrix
      in fold (\<lambda>j lines. scanLine matrix minLength Vertical None (columnCells n j) lines)
              [0..<n] [])"

definition findHorizontalLines :: "nat list list \<Rightarrow> nat \<Rightarrow> line list" where
  "findHorizontalLines matrix minLength =
     (let n = length matrix
      in fold (\<lambda>i lines. scanLine matrix minLength Horizontal None (rowCells n i) lines)
              [0..<n] [])"

subsection \<open>rqaMeasures\<close>

text \<open>
  The value of the \<open>useMemo\<close> block \<open>rqaMeasures\<close>, as a function of what it reads:
  \<open>matrix\<close>, \<open>diagonalLines\<close> and \<open>verticalLines\<close>. Counters are natural numbers; each
  \<open>/\<close> of the source is \<open>js_div\<close>. \<open>Math.max(...lengths)\<close> is taken over a non-empty
  list of natural numbers, where folding \<open>max\<close> from 0 gives the same value. The
  histogram is an object keyed by length, whose values are read in ascending key order.
\<close>

record rqa =
  RR :: jsnum
  DET :: jsnum
  LAM :: jsnum
  avgDiagLength :: jsnum
  avgVertLength :: jsnum
  maxDiagLength :: nat
  entropy :: real
  recurrentPoints :: nat
  recurrentPointsExcludingLOI :: nat
  upperTriangleRecurrentPoints :: nat
  diagPointsInLines :: nat
  vertPointsInLines :: nat
  totalPoints :: nat
  numDiagLines :: nat
  numVertLines :: nat

definition sumLengths :: "line list \<Rightarrow> nat" where
  "sumLengths ls = fold (\<lambda>line sum. sum + line_length line) ls 0"

definition upperLines :: "line list \<Rightarrow> line list" where
  "upperLines diagonalLines =
     filter (\<lambda>line. case line_k line of Some k \<Rightarrow> 0 < k | None \<Rightarrow> False) diagonalLines"

definition countAll :: "nat list list \<Rightarrow> nat" where
  "countAll matrix =
     (let n = length matrix
      in fold (\<lambda>i c. fold (\<lambda>j c. if cell matrix i j then c + 1 else c) [0..<n] c) [0..<n] 0)"

definition countExcludingLOI :: "nat list list \<Rightarrow> nat" where
  "countExcludingLOI matrix =
     (let n = length matrix
      in fold (\<lambda>i c. fold (\<lambda>j c. if i \<noteq> j \<and> cell matrix i j then c + 1 else c) [0..<n] c)
              [0..<n] 0)"

definition countUpperTriangle :: "nat list list \<Rightarrow> nat" where
  "countUpperTriangle matrix =
     (let n = length matrix
      in fold (\<lambda>i c. fold (\<lambda>j c. if cell matrix i j then c + 1 else c) [i + 1..<n] c)
              [0..<n] 0)"

definition lengthEntropy :: "line list \<Rightarrow> real" where
  "lengthEntropy upperDiagLines =
     (let lengths = map line_length upperDiagLines;
          histogram = map (count_list lengths) (sort (remdups lengths));
          totalDiagLines = length upperDiagLines
      in if 0 < totalDiagLines
         then fold (\<lambda>count entropy.
                      let p = real count / real totalDiagLines
                      in if 0 < p then entropy - p * ln p else entropy)
                   histogram 0
         else 0)"

definition rqaMeasures :: "nat list list \<Rightarrow> line list \<Rightarrow> line list \<Rightarrow> rqa" where
  "rqaMeasures matrix diagonalLines verticalLines =
     (let n = length matrix;
          totalPoints = n * n;
          allRecurrentPoints = countAll matrix;
          RR = js_div (real allRecurrentPoints) (real totalPoints);
          recurrentPointsExcludingLOI = countExcludingLOI matrix;
          upperDiagLines = upperLines diagonalLines;
          upperDiagPointsInLines = sumLengths upperDiagLines;
          upperTriangleRecurrentPoints = countUpperTriangle matrix;
          DET = (if 0 < upperTriangleRecurrentPoints
                 then js_div (real upperDiagPointsInLines) (real upperTriangleRecurrentPoints)
                 else Num 0);
          vertPointsInLines = sumLengths verticalLines;
          LAM = (if 0 < allRecurrentPoints
                 then js_div (real vertPointsInLines) (real allRecurrentPoints)
                 else Num 0);
          avgDiagLength = (if 0 < length upperDiagLines
                           then js_div (real (sumLengths upperDiagLines))
                                       (real (length upperDiagLines))
                           else Num 0);
          avgVertLength = (if 0 < length verticalLines
                           then js_div (real (sumLengths verticalLines))
                                       (real (length verticalLines))
                           else Num 0);
          maxDiagLength = (if 0 < length upperDiagLines
                           then fold max (map line_length upperDiagLines) 0
                           else 0)
      in \<lparr>RR = RR, DET = DET, LAM = LAM,
          avgDiagLength = avgDiagLength, avgVertLength = avgVertLength,
          maxDiagLength = maxDiagLength, entropy = lengthEntropy upperDiagLines,
          recurrentPoints = allRecurrentPoints,
          recurrentPointsExcludingLOI = recurrentPointsExcludingLOI,
          upperTriangleRecurrentPoints = upperTriangleRecurrentPoints,
          diagPointsInLines = upperDiagPointsInLines,
          vertPointsInLines = vertPointsInLines,
          totalPoints = totalPoints,
          numDiagLines = length upperDiagLines,
          numVertLines = length verticalLines\<rparr>)"

text \<open>The component's data flow: the matrix of a signal, its segments, its measures.\<close>

definition rqaOfMatrix :: "nat list list \<Rightarrow> nat \<Rightarrow> rqa" where
  "rqaOfMatrix matrix minLineLength =
     rqaMeasures matrix (findDiagonalLines matrix minLineLength)
                        (findVerticalLines matrix minLineLength)"


section \<open>Sample entropy (App.jsx)\<close>





subsection \<open>The counts as the specification words them\<close>






section \<open>Box-counting dimension (App.jsx)\<close>




section \<open>Divergence demonstration (App.jsx, LLEVisualization)\<close>

text \<open>
  \<open>time\<close> is the component's counter, a natural number (it starts at 0 and is stepped
  up to \<open>maxTime\<close>); \<open>trajectoryType\<close> is a string. \<open>getTrajectories\<close> returns the object
  \<open>{ separation, lle, t }\<close>; \<open>pathSeparations\<close> is the value of \<open>sep\<close> in each round
  \<open>i = 0 .. time\<close> of the loop that draws the two paths.
\<close>

definition initialSeparation :: real where
  "initialSeparation = 0.01"

definition maxTime :: nat where
  "maxTime = 100"

record trajectories =
  traj_separation :: real
  traj_lle :: real
  traj_t :: real

definition getTrajectories :: "nat \<Rightarrow> string \<Rightarrow> trajectories" where
  "getTrajectories time trajectoryType =
     (let t = real time / 10;
          (separation, lle) =
            (if trajectoryType = ''chaotic''
             then (let lle = 0.9 in (initialSeparation * exp (lle * t), lle))
             else if trajectoryType = ''periodic''
             then (let lle = 0 in (initialSeparation * (1 + 0.5 * sin t), lle))
             else (let lle = - 0.5 in (initialSeparation * exp (lle * t), lle)))
      in \<lparr>traj_separation = min separation 2, traj_lle = lle, traj_t = t\<rparr>)"

definition pathSeparations :: "nat \<Rightarrow> string \<Rightarrow> real list" where
  "pathSeparations time trajectoryType =
     map (\<lambda>i. let ti = real i / 10;
                  sep = (if trajectoryType = ''chaotic''
                         then initialSeparation * exp (0.9 * ti)
                         else if trajectoryType = ''periodic''
                         then initialSeparation * (1 + 0.5 * sin ti)
                         else initialSeparation * exp (- 0.5 * ti))
              in min sep 2)
         [0..<time + 1]"

section \<open>Malformed parameters, as the specification lists them\<close>


definition malformedSampEnParameters :: "real list \<Rightarrow> int \<Rightarrow> real \<Rightarrow> bool" where
  "malformedSampEnParameters signal m r = (m \<le> 0 \<or> r < 0 \<or> signal = [])"

section \<open>Maximal runs, as the specification words them\<close>

text \<open>
  A line of the matrix (a diagonal, a column, a row) is given by its cells in scan
  order: \<open>ones t\<close> says that its \<open>t\<close>-th cell holds 1, and \<open>len\<close> is the number of its
  cells. A maximal run with start \<open>s\<close> and length \<open>l \<ge> 1\<close> is made of \<open>l\<close> consecutive 1s
  and ends, on each side, at a 0 or at the boundary of the line. \<open>openRun\<close> describes the
  run that has not ended yet after \<open>len\<close> cells: its length \<open>r\<close> (0 if the last cell is 0).
\<close>

definition maximalRun :: "(nat \<Rightarrow> bool) \<Rightarrow> nat \<Rightarrow> nat \<Rightarrow> nat \<Rightarrow> bool" where
  "maximalRun ones len s l =
     (0 < l \<and> s + l \<le> len \<and> (\<forall>t\<in>{s..<s + l}. ones t) \<and>
      (s = 0 \<or> \<not> ones (s - 1)) \<and> (s + l = len \<or> \<not> ones (s + l)))"

definition openRun :: "(nat \<Rightarrow> bool) \<Rightarrow> nat \<Rightarrow> nat \<Rightarrow> bool" where
  "openRun ones len r =
     (r \<le> len \<and> (\<forall>t\<in>{len - r..<len}. ones t) \<and> (r = len \<or> \<not> ones (len - r - 1)))"


section \<open>Verification\<close>

subsection \<open>The embedding and the recurrence matrix\<close>

lemma js_pow2_sub_commute: "js_pow2 (js_sub a b) = js_pow2 (js_sub b a)"
  by (cases a; cases b) (simp_all add: power2_commute)

lemma euclideanDist_commute: "euclideanDist m vi vj = euclideanDist m vj vi"
  unfolding euclideanDist_def by (simp add: js_pow2_sub_commute)

lemma fold_dist_self:
  "\<forall>d\<in>set ds. \<exists>x. v ! d = Some x \<Longrightarrow>
   fold (\<lambda>d dist. js_add dist (js_pow2 (js_sub (v ! d) (v ! d)))) ds (Some a) = Some a"
  by (induction ds arbitrary: a) auto

lemma euclideanDist_self:
  "\<forall>d<nat m. \<exists>x. v ! d = Some x \<Longrightarrow> euclideanDist m v v = Some 0"
  unfolding euclideanDist_def by (simp add: fold_dist_self)

lemma embedded_index_in_range:
  assumes "1 \<le> m" "1 \<le> t" "int i < int N - (m - 1) * t" "d < nat m"
  shows "0 \<le> int i + int d * t \<and> int i + int d * t < int N"
proof -
  have "int d \<le> m - 1" using assms by linarith
  then have "int d * t \<le> (m - 1) * t" using assms(2) by (simp add: mult_right_mono)
  moreover have "0 \<le> int d * t" using assms(2) by simp
  ultimately show ?thesis using assms(3) by linarith
qed

lemma length_embeddedVectors:
  "length (embeddedVectors signal m t) = nat (int (length signal) - (m - 1) * t)"
  by (simp add: embeddedVectors_def Let_def)

lemma nth_embeddedVectors:
  "i < nat (int (length signal) - (m - 1) * t) \<Longrightarrow>
   embeddedVectors signal m t ! i = map (\<lambda>d. js_index signal (int i + int d * t)) [0..<nat m]"
  by (simp add: embeddedVectors_def Let_def)

lemma nth_embeddedVectors_defined:
  assumes "1 \<le> m" "1 \<le> t" "i < nat (int (length signal) - (m - 1) * t)" "d < nat m"
  shows "i + d * nat t < length signal \<and>
         embeddedVectors signal m t ! i ! d = Some (signal ! (i + d * nat t))"
proof -
  have r: "0 \<le> int i + int d * t \<and> int i + int d * t < int (length signal)"
    using embedded_index_in_range[OF assms(1,2) _ assms(4), of i "length signal"] assms(3) by linarith
  have e: "nat (int i + int d * t) = i + d * nat t"
    using assms(2) by (simp add: nat_add_distrib nat_mult_distrib)
  have "nat (int i + int d * t) < length signal" using r by linarith
  then have "i + d * nat t < length signal" using e by simp
  then show ?thesis using r e assms by (simp add: nth_embeddedVectors js_index_def)
qed

lemma length_computeRecurrenceMatrix:
  "length (computeRecurrenceMatrix signal threshold m t) = nat (int (length signal) - (m - 1) * t)"
  by (simp add: computeRecurrenceMatrix_def Let_def)

lemma length_row_computeRecurrenceMatrix:
  "i < nat (int (length signal) - (m - 1) * t) \<Longrightarrow>
   length (computeRecurrenceMatrix signal threshold m t ! i) = nat (int (length signal) - (m - 1) * t)"
  by (simp add: computeRecurrenceMatrix_def Let_def)

lemma nth_computeRecurrenceMatrix:
  "i < nat (int (length signal) - (m - 1) * t) \<Longrightarrow> j < nat (int (length signal) - (m - 1) * t) \<Longrightarrow>
   computeRecurrenceMatrix signal threshold m t ! i ! j =
     (if js_leq (euclideanDist m (embeddedVectors signal m t ! i) (embeddedVectors signal m t ! j))
                threshold
      then 1 else 0)"
  by (simp add: computeRecurrenceMatrix_def Let_def)

text \<open>
  C6: for \<open>m \<ge> 1\<close>, \<open>\<tau> \<ge> 1\<close> and \<open>N > (m - 1) \<tau>\<close> the embedding has exactly
  \<open>n = N - (m - 1) \<tau>\<close> vectors; the \<open>i\<close>-th is \<open>(x\<^sub>i, x\<^sub>i\<^sub>+\<^sub>\<tau>, \<dots>, x\<^sub>i\<^sub>+\<^sub>(\<^sub>m\<^sub>-\<^sub>1\<^sub>)\<^sub>\<tau>)\<close>, every
  coordinate read inside the sequence (no padding, no wraparound); with \<open>m = 1\<close> the vectors
  are the samples, in order, as one-element vectors.
\<close>

theorem embedding_vectors:
  assumes "1 \<le> m" "1 \<le> t" "(m - 1) * t < int (length signal)"
  shows "length (embeddedVectors signal m t) = length signal - nat (m - 1) * nat t \<and>
         (\<forall>i<length (embeddedVectors signal m t).
            length (embeddedVectors signal m t ! i) = nat m \<and>
            (\<forall>d<nat m. i + d * nat t < length signal) \<and>
            embeddedVectors signal m t ! i = map (\<lambda>d. Some (signal ! (i + d * nat t))) [0..<nat m]) \<and>
         (m = 1 \<longrightarrow> embeddedVectors signal m t = map (\<lambda>x. [Some x]) signal)"
proof -
  let ?n = "nat (int (length signal) - (m - 1) * t)"
  have n: "?n = length signal - nat (m - 1) * nat t"
    using assms by (simp add: nat_diff_distrib' nat_mult_distrib)
  have vec: "embeddedVectors signal m t ! i = map (\<lambda>d. Some (signal ! (i + d * nat t))) [0..<nat m]"
    if "i < ?n" for i
  proof (rule nth_equalityI)
    show "length (embeddedVectors signal m t ! i) = length (map (\<lambda>d. Some (signal ! (i + d * nat t))) [0..<nat m])"
      using that by (simp add: nth_embeddedVectors)
  next
    fix d assume "d < length (embeddedVectors signal m t ! i)"
    then have d: "d < nat m" using that by (simp add: nth_embeddedVectors)
    show "embeddedVectors signal m t ! i ! d = map (\<lambda>d. Some (signal ! (i + d * nat t))) [0..<nat m] ! d"
      using nth_embeddedVectors_defined[OF assms(1,2) that d] d by simp
  qed
  have one: "embeddedVectors signal m t = map (\<lambda>x. [Some x]) signal" if "m = 1"
  proof (rule nth_equalityI)
    show "length (embeddedVectors signal m t) = length (map (\<lambda>x. [Some x]) signal)"
      using that by (simp add: length_embeddedVectors)
  next
    fix i assume "i < length (embeddedVectors signal m t)"
    then have i: "i < ?n" by (simp add: length_embeddedVectors)
    then have "i < length signal" using that by simp
    then show "embeddedVectors signal m t ! i = map (\<lambda>x. [Some x]) signal ! i"
      using vec[OF i] that by simp
  qed
  show ?thesis
    using n vec one nth_embeddedVectors_defined[OF assms(1,2)]
    by (simp add: length_embeddedVectors)
qed

theorem embedding_vectors_witness:
  "(1::int) \<le> 2 \<and> (1::int) \<le> 1 \<and> (2 - 1) * 1 < int (length [5, 7, 9 :: real]) \<and>
   embeddedVectors [5, 7, 9] 2 1 = [[Some 5, Some 7], [Some 7, Some 9]] \<and>
   length (embeddedVectors [5, 7, 9] 2 1) = length [5, 7, 9 :: real] - nat (2 - 1) * nat 1 \<and>
   embeddedVectors [5, 7, 9] 1 1 = [[Some 5], [Some 7], [Some 9]]"
proof -
  have h: "(1::int) \<le> 2" "(1::int) \<le> 1" "(2 - 1) * 1 < int (length [5, 7, 9 :: real])" by simp_all
  have e: "embeddedVectors [5, 7, 9] 2 1 = [[Some 5, Some 7], [Some 7, Some 9]]"
    by (simp add: embeddedVectors_def js_index_def Let_def upt_rec)
  have h1: "(1 - 1) * 1 < int (length [5, 7, 9 :: real])" by simp
  show ?thesis
    using embedding_vectors[OF h] embedding_vectors[OF h(2) h(2) h1] e by simp
qed

text \<open>
  C1: for a threshold \<open>\<epsilon> \<ge> 0\<close>, a dimension \<open>m \<ge> 1\<close> and a delay \<open>\<tau> \<ge> 1\<close> the matrix of
  \<open>computeRecurrenceMatrix\<close> is square, symmetric (\<open>R[i][j] = R[j][i]\<close> at every pair of
  valid indices) and has 1 at every entry of its main diagonal.
\<close>

theorem recurrence_matrix_symmetric_diagonal:
  assumes "0 \<le> threshold" "1 \<le> embeddingDim" "1 \<le> delay"
  shows "let R = computeRecurrenceMatrix signal threshold embeddingDim delay in
         (\<forall>i<length R. length (R ! i) = length R) \<and>
         (\<forall>i<length R. \<forall>j<length R. R ! i ! j = R ! j ! i) \<and>
         (\<forall>i<length R. R ! i ! i = 1)"
proof -
  define R where "R = computeRecurrenceMatrix signal threshold embeddingDim delay"
  let ?n = "nat (int (length signal) - (embeddingDim - 1) * delay)"
  let ?V = "embeddedVectors signal embeddingDim delay"
  have len: "length R = ?n"
    by (simp add: R_def length_computeRecurrenceMatrix)
  have rows: "length (R ! i) = ?n" if "i < ?n" for i
    using that by (simp add: R_def length_row_computeRecurrenceMatrix)
  have diag: "R ! i ! i = 1" if "i < ?n" for i
  proof -
    have "euclideanDist embeddingDim (?V ! i) (?V ! i) = Some 0"
      by (rule euclideanDist_self) (use assms that in \<open>simp add: nth_embeddedVectors_defined\<close>)
    then show ?thesis
      using that assms(1) by (simp add: R_def nth_computeRecurrenceMatrix)
  qed
  have sym: "R ! i ! j = R ! j ! i" if "i < ?n" "j < ?n" for i j
    using that euclideanDist_commute[of embeddingDim "?V ! i" "?V ! j"]
    by (simp add: R_def nth_computeRecurrenceMatrix)
  show ?thesis
    unfolding Let_def R_def[symmetric] using len rows diag sym by simp
qed

theorem recurrence_matrix_symmetric_diagonal_witness:
  "(0::real) \<le> 1 \<and> (1::int) \<le> 1 \<and>
   computeRecurrenceMatrix [0, 2, 1] 1 1 1 = [[1, 0, 1], [0, 1, 1], [1, 1, 1]] \<and>
   (let R = computeRecurrenceMatrix [0, 2, 1] 1 1 1 in
         (\<forall>i<length R. length (R ! i) = length R) \<and>
         (\<forall>i<length R. \<forall>j<length R. R ! i ! j = R ! j ! i) \<and>
         (\<forall>i<length R. R ! i ! i = 1))"
proof -
  have e: "computeRecurrenceMatrix [0, 2, 1] 1 1 1 = [[1, 0, 1], [0, 1, 1], [1, 1, 1]]"
    by (simp add: computeRecurrenceMatrix_def embeddedVectors_def euclideanDist_def
                  js_index_def Let_def upt_rec)
  show ?thesis
    using recurrence_matrix_symmetric_diagonal[of 1 1 1 "[0, 2, 1]"] e by simp
qed

subsection \<open>The divergence demonstration\<close>

lemma bounded_separation_below_cap: "initialSeparation * (1 + 0.5 * sin x) \<le> 2"
proof -
  have "sin x \<le> 1" by simp
  then have "initialSeparation * (1 + 0.5 * sin x) \<le> 0.01 * (1 + 0.5 * 1)"
    unfolding initialSeparation_def by (intro mult_left_mono) simp_all
  then show ?thesis by simp
qed

lemma contracting_separation_below_cap:
  assumes "0 \<le> x" shows "initialSeparation * exp (- 0.5 * x) \<le> 2"
proof -
  have "exp (- 0.5 * x) \<le> exp 0" using assms by (subst exp_le_cancel_iff) simp
  then have "initialSeparation * exp (- 0.5 * x) \<le> 0.01 * 1"
    unfolding initialSeparation_def by (intro mult_left_mono) simp_all
  then show ?thesis by simp
qed

lemma expanding_separation_above_cap: "2 < initialSeparation * exp (0.9 * (real 100 / 10))"
proof -
  have "(2::real) \<le> exp 1" using exp_ge_add_one_self[of "1::real"] by simp
  then have "(2::real) ^ 9 \<le> exp 1 ^ 9" by (intro power_mono) simp_all
  moreover have "exp (1::real) ^ 9 = exp 9" by (simp add: exp_of_nat_mult[symmetric])
  ultimately have "(512::real) \<le> exp 9" by simp
  then show ?thesis by (simp add: initialSeparation_def)
qed

text \<open>
  C9, as stated, fails in the expanding regime: at \<open>time = 100\<close> (\<open>t = 10\<close>) the model's
  separation is the cap 2, not \<open>d\<^sub>0 e\<^sup>\<lambda>\<^sup>t\<close>.
\<close>

theorem expanding_separation_capped:
  "traj_separation (getTrajectories 100 ''chaotic'') = 2 \<and>
   traj_separation (getTrajectories 100 ''chaotic'') \<noteq>
     initialSeparation * exp (traj_lle (getTrajectories 100 ''chaotic'')
                              * traj_t (getTrajectories 100 ''chaotic''))"
  using expanding_separation_above_cap by (simp add: getTrajectories_def Let_def)

text \<open>
  C9, amended: the separation is \<open>d\<^sub>0 e\<^sup>\<lambda>\<^sup>t\<close> cut off at 2 in the expanding regime
  (\<open>\<lambda> = 0.9\<close>), exactly \<open>d\<^sub>0 e\<^sup>\<lambda>\<^sup>t\<close> in the contracting regime (\<open>\<lambda> = -0.5\<close>) and exactly
  \<open>d\<^sub>0 (1 + 0.5 sin t)\<close> in the \<open>\<lambda> = 0\<close> regime, with \<open>t = time / 10\<close>; the loop that
  draws the paths computes the same values at every \<open>i \<le> time\<close>.
\<close>

theorem divergence_separation:
  "getTrajectories time ty =
     (let t = real time / 10 in
      if ty = ''chaotic''
      then \<lparr>traj_separation = min (initialSeparation * exp (0.9 * t)) 2, traj_lle = 0.9, traj_t = t\<rparr>
      else if ty = ''periodic''
      then \<lparr>traj_separation = initialSeparation * (1 + 0.5 * sin t), traj_lle = 0, traj_t = t\<rparr>
      else \<lparr>traj_separation = initialSeparation * exp (- 0.5 * t), traj_lle = - 0.5, traj_t = t\<rparr>) \<and>
   length (pathSeparations time ty) = time + 1 \<and>
   (\<forall>i\<le>time. pathSeparations time ty ! i = traj_separation (getTrajectories i ty))"
proof -
  have p: "min (initialSeparation * (1 + 0.5 * sin x)) 2 = initialSeparation * (1 + 0.5 * sin x)" for x
    using bounded_separation_below_cap[of x] by simp
  have c: "min (initialSeparation * exp (- 0.5 * (real i / 10))) 2 = initialSeparation * exp (- 0.5 * (real i / 10))" for i
    using contracting_separation_below_cap[of "real i / 10"] by simp
  have g: "getTrajectories time ty =
     (let t = real time / 10 in
      if ty = ''chaotic''
      then \<lparr>traj_separation = min (initialSeparation * exp (0.9 * t)) 2, traj_lle = 0.9, traj_t = t\<rparr>
      else if ty = ''periodic''
      then \<lparr>traj_separation = initialSeparation * (1 + 0.5 * sin t), traj_lle = 0, traj_t = t\<rparr>
      else \<lparr>traj_separation = initialSeparation * exp (- 0.5 * t), traj_lle = - 0.5, traj_t = t\<rparr>)"
    using p[of "real time / 10"] c[of time] by (simp add: getTrajectories_def Let_def)
  have l: "length (pathSeparations time ty) = time + 1"
    by (simp add: pathSeparations_def)
  have n: "pathSeparations time ty ! i = traj_separation (getTrajectories i ty)" if "i \<le> time" for i
  proof -
    have "i < time + 1" using that by simp
    then have "[0..<time + 1] ! i = i" by (metis add_0 nth_upt)
    then show ?thesis
      using \<open>i < time + 1\<close> by (simp add: pathSeparations_def getTrajectories_def Let_def del: upt_Suc)
  qed
  show ?thesis using g l n by blast
qed

theorem divergence_separation_witness:
  "traj_separation (getTrajectories 0 ''chaotic'') = initialSeparation \<and>
   traj_separation (getTrajectories 0 ''periodic'') = initialSeparation \<and>
   traj_separation (getTrajectories 0 ''stable'') = initialSeparation \<and>
   pathSeparations 0 ''stable'' ! 0 = initialSeparation"
  using divergence_separation[of 0 "''chaotic''"] divergence_separation[of 0 "''periodic''"]
        divergence_separation[of 0 "''stable''"]
  by (simp add: initialSeparation_def)

subsection \<open>The regression slope of the box-counting estimate\<close>






subsection \<open>Counting recurrence points\<close>

lemma fold_count_filter:
  "fold (\<lambda>j c. if P j then c + 1 else c) xs (c::nat) = c + length (filter P xs)"
  by (induction xs arbitrary: c) simp_all

lemma fold_add_sum_list:
  "fold (\<lambda>i c. c + f i) xs (c::nat) = c + sum_list (map f xs)"
  by (induction xs arbitrary: c) simp_all

lemma countAll_sum:
  "countAll matrix =
     (\<Sum>i\<leftarrow>[0..<length matrix]. length (filter (cell matrix i) [0..<length matrix]))"
  by (simp add: countAll_def Let_def fold_count_filter fold_add_sum_list)

lemma countUpperTriangle_sum:
  "countUpperTriangle matrix =
     (\<Sum>i\<leftarrow>[0..<length matrix]. length (filter (cell matrix i) [i + 1..<length matrix]))"
  by (simp add: countUpperTriangle_def Let_def fold_count_filter fold_add_sum_list)

lemma countAll_le_square: "countAll matrix \<le> length matrix * length matrix"
proof -
  have "(\<Sum>i\<leftarrow>[0..<length matrix]. length (filter (cell matrix i) [0..<length matrix]))
          \<le> (\<Sum>i\<leftarrow>[0..<length matrix]. length matrix)"
    by (rule sum_list_mono) (metis diff_zero length_filter_le length_upt)
  then show ?thesis by (simp add: countAll_sum sum_list_triv)
qed

subsection \<open>The measures of an empty matrix\<close>

text \<open>
  C3 at the empty matrix: the recurrence rate is \<open>0 / 0\<close>, which is \<open>NaN\<close>; the other
  measures take their guarded default 0.
\<close>

theorem rqa_empty_matrix:
  "rqaOfMatrix [] minLineLength =
     \<lparr>RR = NaN, DET = Num 0, LAM = Num 0, avgDiagLength = Num 0, avgVertLength = Num 0,
      maxDiagLength = 0, entropy = 0, recurrentPoints = 0, recurrentPointsExcludingLOI = 0,
      upperTriangleRecurrentPoints = 0, diagPointsInLines = 0, vertPointsInLines = 0,
      totalPoints = 0, numDiagLines = 0, numVertLines = 0\<rparr>"
  by (simp add: rqaOfMatrix_def rqaMeasures_def findDiagonalLines_def findVerticalLines_def
                countAll_def countExcludingLOI_def countUpperTriangle_def upperLines_def
                sumLengths_def lengthEntropy_def js_div_def Let_def)

text \<open>
  Every measure except the recurrence rate is a number, whatever the matrix and the
  segments; the recurrence rate is one exactly when the matrix is not empty.
\<close>

lemma rqa_guarded_measures_defined:
  "\<exists>det lam l tt.
     DET (rqaMeasures matrix diagonalLines verticalLines) = Num det \<and>
     LAM (rqaMeasures matrix diagonalLines verticalLines) = Num lam \<and>
     avgDiagLength (rqaMeasures matrix diagonalLines verticalLines) = Num l \<and>
     avgVertLength (rqaMeasures matrix diagonalLines verticalLines) = Num tt"
  by (simp add: rqaMeasures_def Let_def js_div_def)

lemma rqa_RR_value:
  "RR (rqaMeasures matrix diagonalLines verticalLines) =
     (if matrix = [] then NaN
      else Num (real (countAll matrix) / real (length matrix * length matrix)))"
  by (simp add: rqaMeasures_def Let_def js_div_def countAll_def)

subsection \<open>Raising the threshold\<close>

lemma js_leq_mono: "js_leq d e1 \<Longrightarrow> e1 \<le> e2 \<Longrightarrow> js_leq d e2"
  by (cases d) simp_all

lemma computeRecurrenceMatrix_entry_mono:
  assumes "e1 \<le> e2"
      and "i < length (computeRecurrenceMatrix signal e1 m t)"
      and "j < length (computeRecurrenceMatrix signal e1 m t)"
  shows "computeRecurrenceMatrix signal e1 m t ! i ! j \<le> computeRecurrenceMatrix signal e2 m t ! i ! j"
  using assms js_leq_mono[OF _ assms(1)]
  by (simp add: length_computeRecurrenceMatrix nth_computeRecurrenceMatrix)

lemma cell_computeRecurrenceMatrix:
  assumes "i < nat (int (length signal) - (m - 1) * t)" "j < nat (int (length signal) - (m - 1) * t)"
  shows "cell (computeRecurrenceMatrix signal e m t) i j \<longleftrightarrow>
         js_leq (euclideanDist m (embeddedVectors signal m t ! i) (embeddedVectors signal m t ! j)) e"
  using assms
  by (simp add: cell_def length_row_computeRecurrenceMatrix nth_computeRecurrenceMatrix)

lemma countAll_computeRecurrenceMatrix_mono:
  assumes "e1 \<le> e2"
  shows "countAll (computeRecurrenceMatrix signal e1 m t) \<le> countAll (computeRecurrenceMatrix signal e2 m t)"
proof -
  let ?n = "nat (int (length signal) - (m - 1) * t)"
  have inner: "length (filter (cell (computeRecurrenceMatrix signal e1 m t) i) [0..<?n])
        \<le> length (filter (cell (computeRecurrenceMatrix signal e2 m t) i) [0..<?n])"
    if "i < ?n" for i
  proof -
    have "filter (cell (computeRecurrenceMatrix signal e1 m t) i) [0..<?n]
        = filter (cell (computeRecurrenceMatrix signal e1 m t) i)
            (filter (cell (computeRecurrenceMatrix signal e2 m t) i) [0..<?n])"
      unfolding filter_filter
      by (rule filter_cong)
         (use that assms in \<open>auto simp: cell_computeRecurrenceMatrix dest: js_leq_mono\<close>)
    then show ?thesis by (metis length_filter_le)
  qed
  show ?thesis
    unfolding countAll_sum length_computeRecurrenceMatrix
    by (rule sum_list_mono) (use inner in simp)
qed

text \<open>
  Raising the threshold raises no entry of the matrix to a smaller one, and, when the
  matrix is not empty, the recurrence rate does not decrease.
\<close>

lemma recurrence_rate_mono:
  assumes "e1 \<le> e2" and "(m - 1) * t < int (length signal)"
  shows "js_le (RR (rqaOfMatrix (computeRecurrenceMatrix signal e1 m t) minLen))
               (RR (rqaOfMatrix (computeRecurrenceMatrix signal e2 m t) minLen))"
proof -
  have ne: "computeRecurrenceMatrix signal e m t \<noteq> []" for e
    using assms(2) length_computeRecurrenceMatrix[of signal e m t] by auto
  have "real (countAll (computeRecurrenceMatrix signal e1 m t))
          \<le> real (countAll (computeRecurrenceMatrix signal e2 m t))"
    using countAll_computeRecurrenceMatrix_mono[OF assms(1)] by simp
  then show ?thesis
    using ne by (simp add: rqaOfMatrix_def rqa_RR_value length_computeRecurrenceMatrix divide_right_mono)
qed


subsection \<open>Calls with malformed parameters\<close>











subsection \<open>Sample entropy: the loops count the template pairs\<close>













subsection \<open>Segments: what every scan appends\<close>

lemma sumLengths_sum_list: "sumLengths ls = sum_list (map line_length ls)"
  by (simp add: sumLengths_def fold_add_sum_list)

lemma fold_scanCell_appends:
  "fold (scanCell matrix minLength ty k) cells (len, st, lines0 @ ls) =
     (case fold (scanCell matrix minLength ty k) cells (len, st, ls) of
        (len', st', ls') \<Rightarrow> (len', st', lines0 @ ls'))"
proof (induction cells arbitrary: len st ls)
  case Nil
  show ?case by simp
next
  case (Cons c cells)
  show ?case
    using Cons.IH[of "len + 1" "if len = 0 then Some c else st" ls]
          Cons.IH[of 0 st "ls @ [\<lparr>line_start = st, line_length = len, line_type = ty, line_k = k\<rparr>]"]
          Cons.IH[of 0 st ls]
    by (simp add: scanCell_def)
qed

lemma scanLine_appends:
  "scanLine matrix minLength ty k cells lines0 = lines0 @ scanLine matrix minLength ty k cells []"
  using fold_scanCell_appends[of matrix minLength ty k cells 0 None lines0 "[]"]
  by (simp add: scanLine_def split: prod.splits)

lemma fold_appends_concat:
  assumes "\<And>x acc. f x acc = acc @ g x"
  shows "fold f xs acc = acc @ concat (map g xs)"
  using assms by (induction xs arbitrary: acc) simp_all

lemma findVerticalLines_concat:
  "findVerticalLines matrix minLength =
     concat (map (\<lambda>j. scanLine matrix minLength Vertical None (columnCells (length matrix) j) [])
                 [0..<length matrix])"
  unfolding findVerticalLines_def Let_def
  by (subst fold_appends_concat[where g = "\<lambda>j. scanLine matrix minLength Vertical None (columnCells (length matrix) j) []"])
     (simp_all add: scanLine_appends[symmetric])

lemma findHorizontalLines_concat:
  "findHorizontalLines matrix minLength =
     concat (map (\<lambda>i. scanLine matrix minLength Horizontal None (rowCells (length matrix) i) [])
                 [0..<length matrix])"
  unfolding findHorizontalLines_def Let_def
  by (subst fold_appends_concat[where g = "\<lambda>i. scanLine matrix minLength Horizontal None (rowCells (length matrix) i) []"])
     (simp_all add: scanLine_appends[symmetric])

lemma findDiagonalLines_concat:
  "findDiagonalLines matrix minLength =
     concat (map (\<lambda>k. scanLine matrix minLength Diagonal (Some (int k))
                         (upperDiagonalCells (length matrix) k) [])
                 [1..<length matrix]) @
     concat (map (\<lambda>k. scanLine matrix minLength Diagonal (Some (- int k))
                         (lowerDiagonalCells (length matrix) k) [])
                 [1..<length matrix])"
  unfolding findDiagonalLines_def Let_def
  by (subst fold_appends_concat[where g = "\<lambda>k. scanLine matrix minLength Diagonal (Some (- int k)) (lowerDiagonalCells (length matrix) k) []"],
      simp add: scanLine_appends[symmetric],
      subst fold_appends_concat[where g = "\<lambda>k. scanLine matrix minLength Diagonal (Some (int k)) (upperDiagonalCells (length matrix) k) []"],
      simp add: scanLine_appends[symmetric], simp)

subsection \<open>Segments cover no more than the recurrence points\<close>

lemma fold_scanCell_lengths:
  "(case fold (scanCell matrix minLength ty k) cells (len, st, ls) of
      (len', st', ls') \<Rightarrow> sum_list (map line_length ls') + len')
   \<le> sum_list (map line_length ls) + len
       + length (filter (\<lambda>ij. cell matrix (fst ij) (snd ij)) cells)"
proof (induction cells arbitrary: len st ls)
  case Nil
  show ?case by simp
next
  case (Cons c cells)
  show ?case
  proof (cases "cell matrix (fst c) (snd c)")
    case True
    then show ?thesis
      using Cons.IH[where ls = ls and len = "len + 1" and st = "if len = 0 then Some c else st"]
      by (simp add: scanCell_def)
  next
    case False
    then show ?thesis
      using Cons.IH[where ls = "ls @ [\<lparr>line_start = st, line_length = len, line_type = ty, line_k = k\<rparr>]" and len = 0 and st = st]
            Cons.IH[where ls = ls and len = 0 and st = st]
      by (simp add: scanCell_def)
  qed
qed

lemma scanLine_lengths:
  "sum_list (map line_length (scanLine matrix minLength ty k cells []))
     \<le> length (filter (\<lambda>ij. cell matrix (fst ij) (snd ij)) cells)"
proof -
  obtain len st ls where f: "fold (scanCell matrix minLength ty k) cells (0, None, []) = (len, st, ls)"
    by (metis prod_cases3)
  have "sum_list (map line_length ls) + len
          \<le> length (filter (\<lambda>ij. cell matrix (fst ij) (snd ij)) cells)"
    using fold_scanCell_lengths[where matrix = matrix and minLength = minLength and ty = ty
          and k = k and cells = cells and ls = "[]" and len = 0 and st = None]
    by (simp add: f)
  then show ?thesis by (simp add: scanLine_def f)
qed

lemma length_filter_sum: "length (filter P [0..<n]) = (\<Sum>t<n. if P t then 1 else 0)"
proof -
  have "length (filter P xs) = sum_list (map (\<lambda>t. if P t then 1 else 0) xs)" for xs :: "nat list"
    by (induction xs) simp_all
  then show ?thesis
    by (simp add: interv_sum_list_conv_sum_set_nat atLeast0LessThan)
qed

lemma length_filter_sum_from:
  "length (filter P [m..<n]) = (\<Sum>t\<in>{m..<n}. if P t then 1 else 0)"
proof -
  have "length (filter P xs) = sum_list (map (\<lambda>t. if P t then 1 else 0) xs)" for xs :: "nat list"
    by (induction xs) simp_all
  then show ?thesis
    by (simp add: interv_sum_list_conv_sum_set_nat)
qed

lemma sum_list_upt_sum: "sum_list (map g [m..<n]) = (\<Sum>t\<in>{m..<n}. (g t :: nat))"
  by (simp add: interv_sum_list_conv_sum_set_nat)

lemma sumLengths_concat_le:
  assumes "\<And>x. x \<in> set xs \<Longrightarrow> sum_list (map line_length (g x)) \<le> h x"
  shows "sumLengths (concat (map g xs)) \<le> sum_list (map h xs)"
  using assms by (induction xs) (simp_all add: sumLengths_sum_list add_mono)

lemma vertical_points_le_all:
  "sumLengths (findVerticalLines matrix minLength) \<le> countAll matrix"
proof -
  let ?n = "length matrix"
  have "sumLengths (findVerticalLines matrix minLength)
          \<le> (\<Sum>j\<leftarrow>[0..<?n]. length (filter (\<lambda>i. cell matrix i j) [0..<?n]))"
    unfolding findVerticalLines_concat
  proof (rule sumLengths_concat_le)
    fix j
    show "sum_list (map line_length (scanLine matrix minLength Vertical None (columnCells ?n j) []))
            \<le> length (filter (\<lambda>i. cell matrix i j) [0..<?n])"
      using scanLine_lengths[of matrix minLength Vertical None "columnCells ?n j"]
      by (simp add: columnCells_def filter_map comp_def)
  qed
  also have "\<dots> = (\<Sum>j<?n. \<Sum>i<?n. if cell matrix i j then 1 else 0)"
    by (simp add: length_filter_sum sum_list_upt_sum atLeast0LessThan)
  also have "\<dots> = (\<Sum>i<?n. \<Sum>j<?n. if cell matrix i j then 1 else 0)"
    by (rule sum.swap)
  also have "\<dots> = countAll matrix"
    by (simp add: countAll_sum length_filter_sum sum_list_upt_sum atLeast0LessThan)
  finally show ?thesis .
qed

lemma scanCell_tags:
  assumes "\<forall>seg\<in>set (snd (snd s)). line_k seg = k \<and> line_type seg = ty"
  shows "\<forall>seg\<in>set (snd (snd (scanCell matrix minLength ty k c s))). line_k seg = k \<and> line_type seg = ty"
proof -
  obtain len st ls where s: "s = (len, st, ls)" by (metis prod_cases3)
  show ?thesis
  proof (cases "cell matrix (fst c) (snd c)")
    case True
    then show ?thesis using assms by (simp add: s scanCell_def)
  next
    case False
    then show ?thesis using assms by (cases "minLength \<le> len") (simp_all add: s scanCell_def)
  qed
qed

lemma fold_scanCell_tags:
  assumes "\<forall>seg\<in>set (snd (snd s)). line_k seg = k \<and> line_type seg = ty"
  shows "\<forall>seg\<in>set (snd (snd (fold (scanCell matrix minLength ty k) cells s))).
           line_k seg = k \<and> line_type seg = ty"
  using assms
proof (induction cells arbitrary: s)
  case Nil
  then show ?case by simp
next
  case (Cons c cells)
  show ?case
    unfolding fold_Cons comp_apply
    by (rule Cons.IH) (rule scanCell_tags[OF Cons.prems])
qed

lemma scanLine_tags:
  assumes "seg \<in> set (scanLine matrix minLength ty k cells [])"
  shows "line_k seg = k \<and> line_type seg = ty"
proof -
  obtain len st ls where f: "fold (scanCell matrix minLength ty k) cells (0, None, []) = (len, st, ls)"
    by (metis prod_cases3)
  have ls: "\<forall>seg\<in>set ls. line_k seg = k \<and> line_type seg = ty"
    using fold_scanCell_tags[where s = "(0, None, [])" and k = k and ty = ty and matrix = matrix
            and minLength = minLength and cells = cells]
    by (simp add: f)
  show ?thesis
  proof (cases "minLength \<le> len")
    case True
    then have "seg = \<lparr>line_start = st, line_length = len, line_type = ty, line_k = k\<rparr> \<or> seg \<in> set ls"
      using assms by (simp add: scanLine_def f)
    then show ?thesis
    proof
      assume "seg = \<lparr>line_start = st, line_length = len, line_type = ty, line_k = k\<rparr>"
      then show ?thesis by simp
    next
      assume "seg \<in> set ls"
      then show ?thesis using ls by simp
    qed
  next
    case False
    then have "seg \<in> set ls" using assms by (simp add: scanLine_def f)
    then show ?thesis using ls by simp
  qed
qed

lemma upperLines_findDiagonalLines:
  "upperLines (findDiagonalLines matrix minLength) =
     concat (map (\<lambda>k. scanLine matrix minLength Diagonal (Some (int k))
                         (upperDiagonalCells (length matrix) k) [])
                 [1..<length matrix])"
proof -
  let ?P = "\<lambda>line. case line_k line of Some k \<Rightarrow> 0 < k | None \<Rightarrow> False"
  let ?up = "\<lambda>k. scanLine matrix minLength Diagonal (Some (int k))
                         (upperDiagonalCells (length matrix) k) []"
  let ?low = "\<lambda>k. scanLine matrix minLength Diagonal (Some (- int k))
                         (lowerDiagonalCells (length matrix) k) []"
  have up: "filter ?P (concat (map ?up [1..<length matrix])) = concat (map ?up [1..<length matrix])"
  proof (rule filter_True, rule ballI)
    fix seg assume "seg \<in> set (concat (map ?up [1..<length matrix]))"
    then obtain k where k: "1 \<le> k" "seg \<in> set (?up k)" by auto
    have "line_k seg = Some (int k)" using scanLine_tags[OF k(2)] by simp
    then show "?P seg" using k(1) by simp
  qed
  have low: "filter ?P (concat (map ?low [1..<length matrix])) = []"
  proof (rule filter_False, rule ballI)
    fix seg assume "seg \<in> set (concat (map ?low [1..<length matrix]))"
    then obtain k where k: "seg \<in> set (?low k)" by auto
    have "line_k seg = Some (- int k)" using scanLine_tags[OF k] by simp
    then show "\<not> ?P seg" by simp
  qed
  show ?thesis
    unfolding upperLines_def findDiagonalLines_concat filter_append low up by simp
qed

lemma triangle_by_diagonals:
  "(\<Sum>k\<in>{1..<n::nat}. \<Sum>i<n - k. g i (i + k)) = (\<Sum>i<n. \<Sum>j\<in>{i + 1..<n}. (g i j :: nat))"
proof -
  have "(\<Sum>k\<in>{1..<n}. \<Sum>i<n - k. g i (i + k)) =
        (\<Sum>(k, i)\<in>(SIGMA k:{1..<n}. {..<n - k}). g i (i + k))"
    by (subst sum.Sigma) simp_all
  also have "\<dots> = (\<Sum>(i, j)\<in>(SIGMA i:{..<n}. {i + 1..<n}). g i j)"
    by (rule sum.reindex_bij_witness[where i = "\<lambda>(i, j). (j - i, i)" and j = "\<lambda>(k, i). (i, i + k)"])
       auto
  also have "\<dots> = (\<Sum>i<n. \<Sum>j\<in>{i + 1..<n}. g i j)"
    by (subst sum.Sigma) simp_all
  finally show ?thesis .
qed

lemma diagonal_points_le_upper_triangle:
  "sumLengths (upperLines (findDiagonalLines matrix minLength)) \<le> countUpperTriangle matrix"
proof -
  let ?n = "length matrix"
  have "sumLengths (upperLines (findDiagonalLines matrix minLength))
          \<le> (\<Sum>k\<leftarrow>[1..<?n]. length (filter (\<lambda>i. cell matrix i (i + k)) [0..<?n - k]))"
    unfolding upperLines_findDiagonalLines
  proof (rule sumLengths_concat_le)
    fix k
    show "sum_list (map line_length (scanLine matrix minLength Diagonal (Some (int k))
                                       (upperDiagonalCells ?n k) []))
            \<le> length (filter (\<lambda>i. cell matrix i (i + k)) [0..<?n - k])"
      using scanLine_lengths[of matrix minLength Diagonal "Some (int k)" "upperDiagonalCells ?n k"]
      by (simp add: upperDiagonalCells_def filter_map comp_def)
  qed
  also have "\<dots> = (\<Sum>k\<in>{1..<?n}. \<Sum>i<?n - k. if cell matrix i (i + k) then 1 else 0)"
    by (simp add: length_filter_sum sum_list_upt_sum)
  also have "\<dots> = (\<Sum>i<?n. \<Sum>j\<in>{i + 1..<?n}. if cell matrix i j then 1 else 0)"
    by (rule triangle_by_diagonals)
  also have "\<dots> = countUpperTriangle matrix"
    by (simp add: countUpperTriangle_sum length_filter_sum_from sum_list_upt_sum atLeast0LessThan)
  finally show ?thesis .
qed

lemma js_between_ratio:
  assumes "a \<le> b" "0 < b"
  shows "js_between 0 1 (js_div (real a) (real b))"
  using assms by (simp add: js_between_def js_div_def)

text \<open>
  C2: for a matrix of size \<open>n \<ge> 1\<close> and the diagonal and vertical segments extracted from
  it, \<open>RR\<close>, \<open>DET\<close> and \<open>LAM\<close> lie in \<open>[0, 1]\<close>. (Neither the entries being 0 or 1, nor
  the rows having length \<open>n\<close>, nor a bound on the minimum length is needed.)
\<close>

theorem rqa_ratios_in_unit_interval:
  assumes "matrix \<noteq> []"
  shows "js_between 0 1 (RR (rqaOfMatrix matrix minLength)) \<and>
         js_between 0 1 (DET (rqaOfMatrix matrix minLength)) \<and>
         js_between 0 1 (LAM (rqaOfMatrix matrix minLength))"
proof -
  have n: "0 < length matrix * length matrix" using assms by simp
  have rr: "js_between 0 1 (RR (rqaOfMatrix matrix minLength))"
    using js_between_ratio[OF countAll_le_square[of matrix] n]
    by (simp add: rqaOfMatrix_def rqaMeasures_def Let_def)
  have det: "js_between 0 1 (DET (rqaOfMatrix matrix minLength))"
  proof (cases "0 < countUpperTriangle matrix")
    case True
    then show ?thesis
      using js_between_ratio[OF diagonal_points_le_upper_triangle[of matrix minLength] True]
      by (simp add: rqaOfMatrix_def rqaMeasures_def Let_def)
  next
    case False
    then show ?thesis
      by (simp add: rqaOfMatrix_def rqaMeasures_def Let_def js_between_def)
  qed
  have lam: "js_between 0 1 (LAM (rqaOfMatrix matrix minLength))"
  proof (cases "0 < countAll matrix")
    case True
    then show ?thesis
      using js_between_ratio[OF vertical_points_le_all[of matrix minLength] True]
      by (simp add: rqaOfMatrix_def rqaMeasures_def Let_def)
  next
    case False
    then show ?thesis
      by (simp add: rqaOfMatrix_def rqaMeasures_def Let_def js_between_def)
  qed
  show ?thesis using rr det lam by simp
qed


theorem rqa_ratios_in_unit_interval_witness:
  "RR (rqaOfMatrix [[1, 1, 1], [1, 1, 1], [0, 1, 1]] 2) = Num (8 / 9) \<and>
   DET (rqaOfMatrix [[1, 1, 1], [1, 1, 1], [0, 1, 1]] 2) = Num (2 / 3) \<and>
   LAM (rqaOfMatrix [[1, 1, 1], [1, 1, 1], [0, 1, 1]] 2) = Num 1 \<and>
   js_between 0 1 (RR (rqaOfMatrix [[1, 1, 1], [1, 1, 1], [0, 1, 1]] 2)) \<and>
   js_between 0 1 (DET (rqaOfMatrix [[1, 1, 1], [1, 1, 1], [0, 1, 1]] 2)) \<and>
   js_between 0 1 (LAM (rqaOfMatrix [[1, 1, 1], [1, 1, 1], [0, 1, 1]] 2))"
proof -
  define M :: "nat list list" where "M = [[1, 1, 1], [1, 1, 1], [0, 1, 1]]"
  have d: "findDiagonalLines M 2 =
             [\<lparr>line_start = Some (0, 1), line_length = 2, line_type = Diagonal, line_k = Some 1\<rparr>,
              \<lparr>line_start = Some (1, 0), line_length = 2, line_type = Diagonal, line_k = Some (- 1)\<rparr>]"
    by (simp add: M_def findDiagonalLines_def scanLine_def scanCell_def cell_def
                  upperDiagonalCells_def lowerDiagonalCells_def Let_def upt_rec)
  have v: "findVerticalLines M 2 =
             [\<lparr>line_start = Some (0, 0), line_length = 2, line_type = Vertical, line_k = None\<rparr>,
              \<lparr>line_start = Some (0, 1), line_length = 3, line_type = Vertical, line_k = None\<rparr>,
              \<lparr>line_start = Some (0, 2), line_length = 3, line_type = Vertical, line_k = None\<rparr>]"
    by (simp add: M_def findVerticalLines_def scanLine_def scanCell_def cell_def columnCells_def
                  Let_def upt_rec)
  have a: "countAll M = 8"
    by (simp add: M_def countAll_def cell_def Let_def upt_rec)
  have u: "countUpperTriangle M = 3"
    by (simp add: M_def countUpperTriangle_def cell_def Let_def upt_rec)
  have l: "length M = 3" by (simp add: M_def)
  have r: "RR (rqaOfMatrix M 2) = Num (8 / 9)"
          "DET (rqaOfMatrix M 2) = Num (2 / 3)"
          "LAM (rqaOfMatrix M 2) = Num 1"
    by (simp_all add: rqaOfMatrix_def rqaMeasures_def d v a u l upperLines_def sumLengths_def
                      js_div_def Let_def)
  have ne: "M \<noteq> []" by (simp add: M_def)
  show ?thesis
    using rqa_ratios_in_unit_interval[OF ne, of 2] r unfolding M_def by simp
qed

subsection \<open>Segments are the maximal runs\<close>

lemma openRun_unique:
  assumes "openRun ones L r"
  shows "(0 < l \<and> s + l = L \<and> (\<forall>t\<in>{s..<s + l}. ones t) \<and> (s = 0 \<or> \<not> ones (s - 1)))
         \<longleftrightarrow> (0 < r \<and> l = r \<and> s = L - r)"
proof
  assume a: "0 < l \<and> s + l = L \<and> (\<forall>t\<in>{s..<s + l}. ones t) \<and> (s = 0 \<or> \<not> ones (s - 1))"
  have r: "r \<le> L" "\<forall>t\<in>{L - r..<L}. ones t" "r = L \<or> \<not> ones (L - r - 1)"
    using assms by (simp_all add: openRun_def)
  have "\<not> r < l"
  proof
    assume "r < l"
    then have "L - r - 1 \<in> {s..<s + l}" using a by auto
    then have "ones (L - r - 1)" using a by blast
    moreover have "r \<noteq> L" using \<open>r < l\<close> a by auto
    ultimately show False using r(3) by simp
  qed
  moreover have "\<not> l < r"
  proof
    assume "l < r"
    then have s: "0 < s" "s - 1 \<in> {L - r..<L}" using a r(1) by auto
    then have "ones (s - 1)" using r(2) by blast
    then show False using a s(1) by simp
  qed
  ultimately have "l = r" by simp
  then show "0 < r \<and> l = r \<and> s = L - r" using a by auto
next
  assume b: "0 < r \<and> l = r \<and> s = L - r"
  have r: "r \<le> L" "\<forall>t\<in>{L - r..<L}. ones t" "r = L \<or> \<not> ones (L - r - 1)"
    using assms by (simp_all add: openRun_def)
  have "s + l = L" using b r(1) by simp
  moreover have "\<forall>t\<in>{s..<s + l}. ones t" using b r(1,2) by simp
  moreover have "s = 0 \<or> \<not> ones (s - 1)" using b r(3) by auto
  ultimately show "0 < l \<and> s + l = L \<and> (\<forall>t\<in>{s..<s + l}. ones t) \<and> (s = 0 \<or> \<not> ones (s - 1))"
    using b by simp
qed

lemma closed_runs_after_one:
  assumes "ones L"
  shows "(maximalRun ones (Suc L) s l \<and> s + l < Suc L) \<longleftrightarrow> (maximalRun ones L s l \<and> s + l < L)"
proof -
  have "s + l \<noteq> L" if "\<not> ones (s + l)" using that assms by auto
  then show ?thesis by (auto simp: maximalRun_def)
qed

lemma closed_runs_after_zero:
  assumes "\<not> ones L" "openRun ones L r"
  shows "(maximalRun ones (Suc L) s l \<and> s + l < Suc L)
         \<longleftrightarrow> (maximalRun ones L s l \<and> s + l < L) \<or> (0 < r \<and> l = r \<and> s = L - r)"
proof (cases "s + l = L")
  case True
  have "(maximalRun ones (Suc L) s l \<and> s + l < Suc L)
        \<longleftrightarrow> (0 < l \<and> s + l = L \<and> (\<forall>t\<in>{s..<s + l}. ones t) \<and> (s = 0 \<or> \<not> ones (s - 1)))"
    using True assms(1) by (auto simp: maximalRun_def)
  then show ?thesis using openRun_unique[OF assms(2), of l s] True by auto
next
  case False
  have "s \<noteq> L - r \<or> l \<noteq> r \<or> r = 0" using False assms(2) by (auto simp: openRun_def)
  moreover have "(maximalRun ones (Suc L) s l \<and> s + l < Suc L) \<longleftrightarrow> (maximalRun ones L s l \<and> s + l < L)"
    using False by (auto simp: maximalRun_def)
  ultimately show ?thesis by auto
qed

lemma all_runs_at_end:
  assumes "openRun ones L r"
  shows "maximalRun ones L s l
         \<longleftrightarrow> (maximalRun ones L s l \<and> s + l < L) \<or> (0 < r \<and> l = r \<and> s = L - r)"
proof (cases "s + l = L")
  case True
  have "maximalRun ones L s l
        \<longleftrightarrow> (0 < l \<and> s + l = L \<and> (\<forall>t\<in>{s..<s + l}. ones t) \<and> (s = 0 \<or> \<not> ones (s - 1)))"
    using True by (auto simp: maximalRun_def)
  then show ?thesis using openRun_unique[OF assms, of l s] True by auto
next
  case False
  have "s \<noteq> L - r \<or> l \<noteq> r \<or> r = 0" using False assms by (auto simp: openRun_def)
  moreover have "maximalRun ones L s l \<longrightarrow> s + l < L"
    using False by (auto simp: maximalRun_def)
  ultimately show ?thesis by auto
qed

lemma openRun_after_one:
  assumes "ones L" "openRun ones L r"
  shows "openRun ones (Suc L) (Suc r)"
proof -
  have r: "r \<le> L" "\<forall>t\<in>{L - r..<L}. ones t" "r = L \<or> \<not> ones (L - r - 1)"
    using assms(2) by (simp_all add: openRun_def)
  have "\<forall>t\<in>{Suc L - Suc r..<Suc L}. ones t"
  proof
    fix t assume "t \<in> {Suc L - Suc r..<Suc L}"
    then have "t = L \<or> t \<in> {L - r..<L}" by auto
    then show "ones t" using assms(1) r(2) by blast
  qed
  then show ?thesis using r by (auto simp: openRun_def)
qed

lemma openRun_after_zero: "\<not> ones L \<Longrightarrow> openRun ones (Suc L) 0"
  by (simp add: openRun_def)

text \<open>
  The loop invariant of one scan over the cells \<open>f 0, \<dots>, f (L - 1)\<close>: \<open>lineLength\<close> is the
  length of the run still open, \<open>lineStart\<close> its first cell, and the segments pushed so
  far are the maximal runs of length \<open>\<ge> minLength\<close> that have ended, each once.
\<close>

lemma scan_invariant:
  fixes f :: "nat \<Rightarrow> nat \<times> nat"
  assumes "1 \<le> minLength"
  shows "\<exists>len st ps.
           fold (scanCell matrix minLength ty k) (map f [0..<L]) (0, None, []) =
             (len, st, map (\<lambda>p. \<lparr>line_start = Some (f (fst p)), line_length = snd p,
                                  line_type = ty, line_k = k\<rparr>) ps) \<and>
           openRun (\<lambda>t. cell matrix (fst (f t)) (snd (f t))) L len \<and>
           (0 < len \<longrightarrow> st = Some (f (L - len))) \<and>
           set ps = {p. maximalRun (\<lambda>t. cell matrix (fst (f t)) (snd (f t))) L (fst p) (snd p) \<and>
                        fst p + snd p < L \<and> minLength \<le> snd p} \<and>
           distinct ps"
proof (induction L)
  case 0
  have "fold (scanCell matrix minLength ty k) (map f [0..<0]) (0, None, []) =
          (0, None, map (\<lambda>p. \<lparr>line_start = Some (f (fst p)), line_length = snd p,
                                  line_type = ty, line_k = k\<rparr>) [])"
    by simp
  moreover have "openRun (\<lambda>t. cell matrix (fst (f t)) (snd (f t))) 0 0"
    by (simp add: openRun_def)
  ultimately show ?case by fastforce
next
  case (Suc L)
  let ?ones = "\<lambda>t. cell matrix (fst (f t)) (snd (f t))"
  let ?mk = "\<lambda>p. \<lparr>line_start = Some (f (fst p)), line_length = snd p, line_type = ty, line_k = k\<rparr>"
  obtain len st ps where
    run: "fold (scanCell matrix minLength ty k) (map f [0..<L]) (0, None, []) = (len, st, map ?mk ps)"
    and opn: "openRun ?ones L len"
    and start: "0 < len \<longrightarrow> st = Some (f (L - len))"
    and runs: "set ps = {p. maximalRun ?ones L (fst p) (snd p) \<and> fst p + snd p < L \<and> minLength \<le> snd p}"
    and dist: "distinct ps"
    using Suc.IH by blast
  have step: "fold (scanCell matrix minLength ty k) (map f [0..<Suc L]) (0, None, []) =
                scanCell matrix minLength ty k (f L) (len, st, map ?mk ps)"
    by (simp add: run)
  show ?case
  proof (cases "?ones L")
    case True
    have s: "scanCell matrix minLength ty k (f L) (len, st, map ?mk ps) =
               (Suc len, (if len = 0 then Some (f L) else st), map ?mk ps)"
      using True by (simp add: scanCell_def)
    have o: "openRun ?ones (Suc L) (Suc len)" by (rule openRun_after_one[OF True opn])
    have "len \<le> L" using opn by (simp add: openRun_def)
    then have st': "(if len = 0 then Some (f L) else st) = Some (f (Suc L - Suc len))"
      using start by simp
    have r: "set ps = {p. maximalRun ?ones (Suc L) (fst p) (snd p) \<and> fst p + snd p < Suc L \<and> minLength \<le> snd p}"
      unfolding runs using closed_runs_after_one[of ?ones L, OF True] by blast
    show ?thesis
      unfolding step s using o st' r dist by blast
  next
    case False
    have o: "openRun ?ones (Suc L) 0" using openRun_after_zero[of ?ones L] False by simp
    show ?thesis
    proof (cases "minLength \<le> len")
      case long: True
      then have pos: "0 < len" using assms by simp
      then have st: "st = Some (f (L - len))" using start by simp
      have s: "scanCell matrix minLength ty k (f L) (len, st, map ?mk ps) =
                 (0, st, map ?mk (ps @ [(L - len, len)]))"
        using False long st by (simp add: scanCell_def)
      have r: "set (ps @ [(L - len, len)]) =
                 {p. maximalRun ?ones (Suc L) (fst p) (snd p) \<and> fst p + snd p < Suc L \<and> minLength \<le> snd p}"
      proof (rule set_eqI)
        fix p :: "nat \<times> nat"
        have "p \<in> set (ps @ [(L - len, len)]) \<longleftrightarrow>
                (maximalRun ?ones L (fst p) (snd p) \<and> fst p + snd p < L \<and> minLength \<le> snd p)
                \<or> p = (L - len, len)"
          using runs by auto
        also have "\<dots> \<longleftrightarrow> ((maximalRun ?ones L (fst p) (snd p) \<and> fst p + snd p < L)
                      \<or> (0 < len \<and> snd p = len \<and> fst p = L - len)) \<and> minLength \<le> snd p"
          using pos long by (cases p) auto
        also have "\<dots> \<longleftrightarrow> (maximalRun ?ones (Suc L) (fst p) (snd p) \<and> fst p + snd p < Suc L)
                      \<and> minLength \<le> snd p"
          using closed_runs_after_zero[of ?ones L len "fst p" "snd p", OF False opn] by simp
        finally show "p \<in> set (ps @ [(L - len, len)]) \<longleftrightarrow>
                p \<in> {p. maximalRun ?ones (Suc L) (fst p) (snd p) \<and> fst p + snd p < Suc L \<and> minLength \<le> snd p}"
          by simp
      qed
      have "len \<le> L" using opn by (simp add: openRun_def)
      then have "(L - len, len) \<notin> set ps" unfolding runs by simp
      then have d: "distinct (ps @ [(L - len, len)])" using dist by simp
      show ?thesis
        unfolding step s using o r d by blast
    next
      case short: False
      have s: "scanCell matrix minLength ty k (f L) (len, st, map ?mk ps) = (0, st, map ?mk ps)"
        using False short by (simp add: scanCell_def)
      have r: "set ps = {p. maximalRun ?ones (Suc L) (fst p) (snd p) \<and> fst p + snd p < Suc L \<and> minLength \<le> snd p}"
      proof (rule set_eqI)
        fix p :: "nat \<times> nat"
        have "p \<in> set ps \<longleftrightarrow>
                ((maximalRun ?ones L (fst p) (snd p) \<and> fst p + snd p < L)
                      \<or> (0 < len \<and> snd p = len \<and> fst p = L - len)) \<and> minLength \<le> snd p"
          using runs short by auto
        also have "\<dots> \<longleftrightarrow> (maximalRun ?ones (Suc L) (fst p) (snd p) \<and> fst p + snd p < Suc L)
                      \<and> minLength \<le> snd p"
          using closed_runs_after_zero[of ?ones L len "fst p" "snd p", OF False opn] by simp
        finally show "p \<in> set ps \<longleftrightarrow>
                p \<in> {p. maximalRun ?ones (Suc L) (fst p) (snd p) \<and> fst p + snd p < Suc L \<and> minLength \<le> snd p}"
          by simp
      qed
      show ?thesis
        unfolding step s using o r dist by blast
    qed
  qed
qed

lemma scanLine_runs:
  fixes f :: "nat \<Rightarrow> nat \<times> nat"
  assumes "1 \<le> minLength"
  shows "\<exists>ps. scanLine matrix minLength ty k (map f [0..<L]) [] =
                map (\<lambda>p. \<lparr>line_start = Some (f (fst p)), line_length = snd p,
                            line_type = ty, line_k = k\<rparr>) ps \<and>
              set ps = {p. maximalRun (\<lambda>t. cell matrix (fst (f t)) (snd (f t))) L (fst p) (snd p) \<and>
                           minLength \<le> snd p} \<and>
              distinct ps"
proof -
  let ?ones = "\<lambda>t. cell matrix (fst (f t)) (snd (f t))"
  let ?mk = "\<lambda>p. \<lparr>line_start = Some (f (fst p)), line_length = snd p, line_type = ty, line_k = k\<rparr>"
  obtain len st ps where
    run: "fold (scanCell matrix minLength ty k) (map f [0..<L]) (0, None, []) = (len, st, map ?mk ps)"
    and opn: "openRun ?ones L len"
    and start: "0 < len \<longrightarrow> st = Some (f (L - len))"
    and runs: "set ps = {p. maximalRun ?ones L (fst p) (snd p) \<and> fst p + snd p < L \<and> minLength \<le> snd p}"
    and dist: "distinct ps"
    using scan_invariant[OF assms, of matrix ty k f L] by blast
  have all: "maximalRun ?ones L (fst p) (snd p) \<longleftrightarrow>
               (maximalRun ?ones L (fst p) (snd p) \<and> fst p + snd p < L)
               \<or> (0 < len \<and> snd p = len \<and> fst p = L - len)" for p :: "nat \<times> nat"
    using all_runs_at_end[of ?ones L len "fst p" "snd p", OF opn] by simp
  show ?thesis
  proof (cases "minLength \<le> len")
    case True
    then have pos: "0 < len" using assms by simp
    then have st: "st = Some (f (L - len))" using start by simp
    have res: "scanLine matrix minLength ty k (map f [0..<L]) [] = map ?mk (ps @ [(L - len, len)])"
      using True st by (simp add: scanLine_def run)
    have r: "set (ps @ [(L - len, len)]) = {p. maximalRun ?ones L (fst p) (snd p) \<and> minLength \<le> snd p}"
    proof (rule set_eqI)
      fix p :: "nat \<times> nat"
      have "p \<in> set (ps @ [(L - len, len)]) \<longleftrightarrow>
              (maximalRun ?ones L (fst p) (snd p) \<and> fst p + snd p < L \<and> minLength \<le> snd p)
              \<or> p = (L - len, len)"
        using runs by auto
      also have "\<dots> \<longleftrightarrow> ((maximalRun ?ones L (fst p) (snd p) \<and> fst p + snd p < L)
                    \<or> (0 < len \<and> snd p = len \<and> fst p = L - len)) \<and> minLength \<le> snd p"
        using pos True by (cases p) auto
      also have "\<dots> \<longleftrightarrow> maximalRun ?ones L (fst p) (snd p) \<and> minLength \<le> snd p"
        using all[of p] by simp
      finally show "p \<in> set (ps @ [(L - len, len)]) \<longleftrightarrow>
              p \<in> {p. maximalRun ?ones L (fst p) (snd p) \<and> minLength \<le> snd p}"
        by simp
    qed
    have "len \<le> L" using opn by (simp add: openRun_def)
    then have "(L - len, len) \<notin> set ps" unfolding runs by simp
    then have d: "distinct (ps @ [(L - len, len)])" using dist by simp
    show ?thesis using res r d by blast
  next
    case False
    have res: "scanLine matrix minLength ty k (map f [0..<L]) [] = map ?mk ps"
      using False by (simp add: scanLine_def run)
    have r: "set ps = {p. maximalRun ?ones L (fst p) (snd p) \<and> minLength \<le> snd p}"
    proof (rule set_eqI)
      fix p :: "nat \<times> nat"
      have "p \<in> set ps \<longleftrightarrow>
              ((maximalRun ?ones L (fst p) (snd p) \<and> fst p + snd p < L)
                    \<or> (0 < len \<and> snd p = len \<and> fst p = L - len)) \<and> minLength \<le> snd p"
        using runs False by auto
      also have "\<dots> \<longleftrightarrow> maximalRun ?ones L (fst p) (snd p) \<and> minLength \<le> snd p"
        using all[of p] by simp
      finally show "p \<in> set ps \<longleftrightarrow> p \<in> {p. maximalRun ?ones L (fst p) (snd p) \<and> minLength \<le> snd p}"
        by simp
    qed
    show ?thesis using res r dist by blast
  qed
qed

text \<open>The segments of one scan, as a set, and without repetition.\<close>

lemma scanLine_set:
  fixes f :: "nat \<Rightarrow> nat \<times> nat"
  assumes "1 \<le> minLength"
  shows "set (scanLine matrix minLength ty k (map f [0..<L]) []) =
           {\<lparr>line_start = Some (f s), line_length = l, line_type = ty, line_k = k\<rparr> | s l.
              minLength \<le> l \<and> maximalRun (\<lambda>t. cell matrix (fst (f t)) (snd (f t))) L s l}"
proof -
  obtain ps where
    res: "scanLine matrix minLength ty k (map f [0..<L]) [] =
            map (\<lambda>p. \<lparr>line_start = Some (f (fst p)), line_length = snd p, line_type = ty, line_k = k\<rparr>) ps"
    and runs: "set ps = {p. maximalRun (\<lambda>t. cell matrix (fst (f t)) (snd (f t))) L (fst p) (snd p) \<and>
                           minLength \<le> snd p}"
    using scanLine_runs[OF assms, of matrix ty k f L] by blast
  show ?thesis
    unfolding res set_map runs
  proof (intro set_eqI iffI)
    fix x
    assume "x \<in> (\<lambda>p. \<lparr>line_start = Some (f (fst p)), line_length = snd p, line_type = ty, line_k = k\<rparr>) `
              {p. maximalRun (\<lambda>t. cell matrix (fst (f t)) (snd (f t))) L (fst p) (snd p) \<and> minLength \<le> snd p}"
    then obtain p where p: "x = \<lparr>line_start = Some (f (fst p)), line_length = snd p, line_type = ty, line_k = k\<rparr>"
        "maximalRun (\<lambda>t. cell matrix (fst (f t)) (snd (f t))) L (fst p) (snd p)" "minLength \<le> snd p"
      by blast
    then show "x \<in> {\<lparr>line_start = Some (f s), line_length = l, line_type = ty, line_k = k\<rparr> | s l.
              minLength \<le> l \<and> maximalRun (\<lambda>t. cell matrix (fst (f t)) (snd (f t))) L s l}"
      by blast
  next
    fix x
    assume "x \<in> {\<lparr>line_start = Some (f s), line_length = l, line_type = ty, line_k = k\<rparr> | s l.
              minLength \<le> l \<and> maximalRun (\<lambda>t. cell matrix (fst (f t)) (snd (f t))) L s l}"
    then obtain s l where sl: "x = \<lparr>line_start = Some (f s), line_length = l, line_type = ty, line_k = k\<rparr>"
        "minLength \<le> l" "maximalRun (\<lambda>t. cell matrix (fst (f t)) (snd (f t))) L s l"
      by blast
    have "x = (\<lambda>p. \<lparr>line_start = Some (f (fst p)), line_length = snd p, line_type = ty, line_k = k\<rparr>) (s, l)"
      using sl(1) by simp
    moreover have "(s, l) \<in> {p. maximalRun (\<lambda>t. cell matrix (fst (f t)) (snd (f t))) L (fst p) (snd p) \<and> minLength \<le> snd p}"
      using sl(2,3) by simp
    ultimately show "x \<in> (\<lambda>p. \<lparr>line_start = Some (f (fst p)), line_length = snd p, line_type = ty, line_k = k\<rparr>) `
              {p. maximalRun (\<lambda>t. cell matrix (fst (f t)) (snd (f t))) L (fst p) (snd p) \<and> minLength \<le> snd p}"
      by (rule image_eqI)
  qed
qed

lemma scanLine_distinct:
  fixes f :: "nat \<Rightarrow> nat \<times> nat"
  assumes "1 \<le> minLength" "inj f"
  shows "distinct (scanLine matrix minLength ty k (map f [0..<L]) [])"
proof -
  obtain ps where
    res: "scanLine matrix minLength ty k (map f [0..<L]) [] =
            map (\<lambda>p. \<lparr>line_start = Some (f (fst p)), line_length = snd p, line_type = ty, line_k = k\<rparr>) ps"
    and dist: "distinct ps"
    using scanLine_runs[OF assms(1), of matrix ty k f L] by blast
  have "inj (\<lambda>p::nat \<times> nat. \<lparr>line_start = Some (f (fst p)), line_length = snd p, line_type = ty, line_k = k\<rparr>)"
  proof (rule injI)
    fix p q :: "nat \<times> nat"
    assume "\<lparr>line_start = Some (f (fst p)), line_length = snd p, line_type = ty, line_k = k\<rparr> =
            \<lparr>line_start = Some (f (fst q)), line_length = snd q, line_type = ty, line_k = k\<rparr>"
    then have "f (fst p) = f (fst q)" and e: "snd p = snd q" by simp_all
    then have "fst p = fst q" using assms(2) by (simp only: inj_eq)
    then show "p = q" using e by (simp add: prod_eq_iff)
  qed
  then have "inj_on (\<lambda>p::nat \<times> nat. \<lparr>line_start = Some (f (fst p)), line_length = snd p, line_type = ty, line_k = k\<rparr>) (set ps)"
    by (rule inj_on_subset) simp
  then show ?thesis unfolding res using dist by (simp only: distinct_map simp_thms)
qed

lemma distinct_concat_map:
  assumes "distinct xs"
      and "\<And>x. x \<in> set xs \<Longrightarrow> distinct (g x)"
      and "\<And>x y. x \<in> set xs \<Longrightarrow> y \<in> set xs \<Longrightarrow> x \<noteq> y \<Longrightarrow> set (g x) \<inter> set (g y) = {}"
  shows "distinct (concat (map g xs))"
  using assms
proof (induction xs)
  case Nil
  show ?case by simp
next
  case (Cons x xs)
  have "distinct (concat (map g xs))"
    using Cons.IH Cons.prems by simp
  moreover have "distinct (g x)" using Cons.prems(2) by simp
  moreover have "set (g x) \<inter> set (g y) = {}" if "y \<in> set xs" for y
    using Cons.prems(1) Cons.prems(3)[of x y] that by auto
  ultimately show ?case by auto
qed

lemma maximalRun_length_le: "maximalRun ones L s l \<Longrightarrow> l \<le> L"
  by (simp add: maximalRun_def)

lemma column_set:
  assumes "1 \<le> minLength"
  shows "set (scanLine matrix minLength Vertical None (columnCells n j) []) =
           {\<lparr>line_start = Some (s, j), line_length = l, line_type = Vertical, line_k = None\<rparr> | s l.
              minLength \<le> l \<and> maximalRun (\<lambda>t. cell matrix t j) n s l}"
  using scanLine_set[OF assms, of matrix Vertical None "\<lambda>i. (i, j)" n]
  by (simp add: columnCells_def)

lemma row_set:
  assumes "1 \<le> minLength"
  shows "set (scanLine matrix minLength Horizontal None (rowCells n i) []) =
           {\<lparr>line_start = Some (i, s), line_length = l, line_type = Horizontal, line_k = None\<rparr> | s l.
              minLength \<le> l \<and> maximalRun (\<lambda>t. cell matrix i t) n s l}"
  using scanLine_set[OF assms, of matrix Horizontal None "\<lambda>j. (i, j)" n]
  by (simp add: rowCells_def)

lemma upper_diagonal_set:
  assumes "1 \<le> minLength"
  shows "set (scanLine matrix minLength Diagonal (Some (int k)) (upperDiagonalCells n k) []) =
           {\<lparr>line_start = Some (s, s + k), line_length = l, line_type = Diagonal, line_k = Some (int k)\<rparr> | s l.
              minLength \<le> l \<and> maximalRun (\<lambda>t. cell matrix t (t + k)) (n - k) s l}"
  using scanLine_set[OF assms, of matrix Diagonal "Some (int k)" "\<lambda>i. (i, i + k)" "n - k"]
  by (simp add: upperDiagonalCells_def)

lemma lower_diagonal_set:
  assumes "1 \<le> minLength"
  shows "set (scanLine matrix minLength Diagonal (Some (- int k)) (lowerDiagonalCells n k) []) =
           {\<lparr>line_start = Some (s + k, s), line_length = l, line_type = Diagonal, line_k = Some (- int k)\<rparr> | s l.
              minLength \<le> l \<and> maximalRun (\<lambda>t. cell matrix (t + k) t) (n - k) s l}"
  using scanLine_set[OF assms, of matrix Diagonal "Some (- int k)" "\<lambda>j. (j + k, j)" "n - k"]
  by (simp add: lowerDiagonalCells_def)

lemma column_distinct:
  assumes "1 \<le> minLength"
  shows "distinct (scanLine matrix minLength Vertical None (columnCells n j) [])"
  unfolding columnCells_def
  by (rule scanLine_distinct[OF assms]) (simp add: inj_on_def)

lemma row_distinct:
  assumes "1 \<le> minLength"
  shows "distinct (scanLine matrix minLength Horizontal None (rowCells n i) [])"
  unfolding rowCells_def
  by (rule scanLine_distinct[OF assms]) (simp add: inj_on_def)

lemma upper_diagonal_distinct:
  assumes "1 \<le> minLength"
  shows "distinct (scanLine matrix minLength Diagonal (Some (int k)) (upperDiagonalCells n k) [])"
  unfolding upperDiagonalCells_def
  by (rule scanLine_distinct[OF assms]) (simp add: inj_on_def)

lemma lower_diagonal_distinct:
  assumes "1 \<le> minLength"
  shows "distinct (scanLine matrix minLength Diagonal (Some (- int k)) (lowerDiagonalCells n k) [])"
  unfolding lowerDiagonalCells_def
  by (rule scanLine_distinct[OF assms]) (simp add: inj_on_def)

lemma findVerticalLines_runs:
  assumes "1 \<le> minLength"
  shows "set (findVerticalLines matrix minLength) =
           {\<lparr>line_start = Some (s, j), line_length = l, line_type = Vertical, line_k = None\<rparr> | s l j.
              j < length matrix \<and> minLength \<le> l \<and> maximalRun (\<lambda>t. cell matrix t j) (length matrix) s l}"
    and "distinct (findVerticalLines matrix minLength)"
proof -
  show "set (findVerticalLines matrix minLength) =
           {\<lparr>line_start = Some (s, j), line_length = l, line_type = Vertical, line_k = None\<rparr> | s l j.
              j < length matrix \<and> minLength \<le> l \<and> maximalRun (\<lambda>t. cell matrix t j) (length matrix) s l}"
    unfolding findVerticalLines_concat by (auto simp: column_set[OF assms])
  show "distinct (findVerticalLines matrix minLength)"
    unfolding findVerticalLines_concat
  proof (rule distinct_concat_map)
    show "distinct [0..<length matrix]" by simp
  next
    fix j
    show "distinct (scanLine matrix minLength Vertical None (columnCells (length matrix) j) [])"
      by (rule column_distinct[OF assms])
  next
    fix j j' :: nat
    assume "j \<noteq> j'"
    then show "set (scanLine matrix minLength Vertical None (columnCells (length matrix) j) []) \<inter>
               set (scanLine matrix minLength Vertical None (columnCells (length matrix) j') []) = {}"
      by (auto simp: column_set[OF assms])
  qed
qed

lemma findHorizontalLines_runs:
  assumes "1 \<le> minLength"
  shows "set (findHorizontalLines matrix minLength) =
           {\<lparr>line_start = Some (i, s), line_length = l, line_type = Horizontal, line_k = None\<rparr> | s l i.
              i < length matrix \<and> minLength \<le> l \<and> maximalRun (\<lambda>t. cell matrix i t) (length matrix) s l}"
    and "distinct (findHorizontalLines matrix minLength)"
proof -
  show "set (findHorizontalLines matrix minLength) =
           {\<lparr>line_start = Some (i, s), line_length = l, line_type = Horizontal, line_k = None\<rparr> | s l i.
              i < length matrix \<and> minLength \<le> l \<and> maximalRun (\<lambda>t. cell matrix i t) (length matrix) s l}"
    unfolding findHorizontalLines_concat by (auto simp: row_set[OF assms])
  show "distinct (findHorizontalLines matrix minLength)"
    unfolding findHorizontalLines_concat
  proof (rule distinct_concat_map)
    show "distinct [0..<length matrix]" by simp
  next
    fix i
    show "distinct (scanLine matrix minLength Horizontal None (rowCells (length matrix) i) [])"
      by (rule row_distinct[OF assms])
  next
    fix i i' :: nat
    assume "i \<noteq> i'"
    then show "set (scanLine matrix minLength Horizontal None (rowCells (length matrix) i) []) \<inter>
               set (scanLine matrix minLength Horizontal None (rowCells (length matrix) i') []) = {}"
      by (auto simp: row_set[OF assms])
  qed
qed

lemma findDiagonalLines_runs:
  assumes "1 \<le> minLength"
  shows "set (findDiagonalLines matrix minLength) =
           {\<lparr>line_start = Some (s, s + k), line_length = l, line_type = Diagonal, line_k = Some (int k)\<rparr> | s l k.
              1 \<le> k \<and> k < length matrix \<and> minLength \<le> l \<and>
              maximalRun (\<lambda>t. cell matrix t (t + k)) (length matrix - k) s l} \<union>
           {\<lparr>line_start = Some (s + k, s), line_length = l, line_type = Diagonal, line_k = Some (- int k)\<rparr> | s l k.
              1 \<le> k \<and> k < length matrix \<and> minLength \<le> l \<and>
              maximalRun (\<lambda>t. cell matrix (t + k) t) (length matrix - k) s l}"
    and "distinct (findDiagonalLines matrix minLength)"
proof -
  let ?up = "\<lambda>k. scanLine matrix minLength Diagonal (Some (int k)) (upperDiagonalCells (length matrix) k) []"
  let ?low = "\<lambda>k. scanLine matrix minLength Diagonal (Some (- int k)) (lowerDiagonalCells (length matrix) k) []"
  have u: "set (concat (map ?up [1..<length matrix])) =
           {\<lparr>line_start = Some (s, s + k), line_length = l, line_type = Diagonal, line_k = Some (int k)\<rparr> | s l k.
              1 \<le> k \<and> k < length matrix \<and> minLength \<le> l \<and>
              maximalRun (\<lambda>t. cell matrix t (t + k)) (length matrix - k) s l}"
    by (auto simp: upper_diagonal_set[OF assms])
  have l: "set (concat (map ?low [1..<length matrix])) =
           {\<lparr>line_start = Some (s + k, s), line_length = l, line_type = Diagonal, line_k = Some (- int k)\<rparr> | s l k.
              1 \<le> k \<and> k < length matrix \<and> minLength \<le> l \<and>
              maximalRun (\<lambda>t. cell matrix (t + k) t) (length matrix - k) s l}"
    by (auto simp: lower_diagonal_set[OF assms])
  show "set (findDiagonalLines matrix minLength) =
           {\<lparr>line_start = Some (s, s + k), line_length = l, line_type = Diagonal, line_k = Some (int k)\<rparr> | s l k.
              1 \<le> k \<and> k < length matrix \<and> minLength \<le> l \<and>
              maximalRun (\<lambda>t. cell matrix t (t + k)) (length matrix - k) s l} \<union>
           {\<lparr>line_start = Some (s + k, s), line_length = l, line_type = Diagonal, line_k = Some (- int k)\<rparr> | s l k.
              1 \<le> k \<and> k < length matrix \<and> minLength \<le> l \<and>
              maximalRun (\<lambda>t. cell matrix (t + k) t) (length matrix - k) s l}"
    unfolding findDiagonalLines_concat set_append u l ..
  have du: "distinct (concat (map ?up [1..<length matrix]))"
  proof (rule distinct_concat_map)
    show "distinct [1..<length matrix]" by simp
  next
    fix k
    show "distinct (?up k)" by (rule upper_diagonal_distinct[OF assms])
  next
    fix k k' :: nat
    assume "k \<noteq> k'"
    then show "set (?up k) \<inter> set (?up k') = {}"
      by (auto simp: upper_diagonal_set[OF assms])
  qed
  have dl: "distinct (concat (map ?low [1..<length matrix]))"
  proof (rule distinct_concat_map)
    show "distinct [1..<length matrix]" by simp
  next
    fix k
    show "distinct (?low k)" by (rule lower_diagonal_distinct[OF assms])
  next
    fix k k' :: nat
    assume "k \<noteq> k'"
    then show "set (?low k) \<inter> set (?low k') = {}"
      by (auto simp: lower_diagonal_set[OF assms])
  qed
  have "set (concat (map ?up [1..<length matrix])) \<inter> set (concat (map ?low [1..<length matrix])) = {}"
    unfolding u l by auto
  then show "distinct (findDiagonalLines matrix minLength)"
    unfolding findDiagonalLines_concat using du dl by simp
qed

text \<open>
  C7, as stated (for every minimum length), fails at \<open>minLength = 0\<close>: on the matrix with
  the single entry 0, which has no run of 1s, the column scan returns two segments of
  length 0 with no start, the same one twice.
\<close>

theorem zero_minimum_length_segments:
  "findVerticalLines [[0]] 0 =
     [\<lparr>line_start = None, line_length = 0, line_type = Vertical, line_k = None\<rparr>,
      \<lparr>line_start = None, line_length = 0, line_type = Vertical, line_k = None\<rparr>] \<and>
   \<not> distinct (findVerticalLines [[0]] 0) \<and>
   \<not> (\<exists>s l. maximalRun (\<lambda>t. cell [[0]] t 0) 1 s l)"
proof -
  have e: "findVerticalLines [[0]] 0 =
     [\<lparr>line_start = None, line_length = 0, line_type = Vertical, line_k = None\<rparr>,
      \<lparr>line_start = None, line_length = 0, line_type = Vertical, line_k = None\<rparr>]"
    by (simp add: findVerticalLines_def scanLine_def scanCell_def cell_def columnCells_def Let_def)
  have "\<not> maximalRun (\<lambda>t. cell [[0]] t 0) 1 s l" for s l
  proof
    assume m: "maximalRun (\<lambda>t. cell [[0]] t 0) 1 s l"
    then have "0 < l" "s + l \<le> 1" "\<forall>t\<in>{s..<s + l}. cell [[0]] t 0"
      by (simp_all add: maximalRun_def)
    then have "s = 0" "cell [[0]] s 0" by auto
    then show False by (simp add: cell_def)
  qed
  then show ?thesis unfolding e by simp
qed

text \<open>
  C7, amended (minimum length \<open>\<ge> 1\<close>): each extractor returns exactly the maximal runs of
  1s of length \<open>\<ge> minLength\<close> along its orientation, each once, with its start cell and
  its full length: \<open>findDiagonalLines\<close> over the diagonals \<open>k = 1, \<dots>, n - 1\<close> above the
  main diagonal (\<open>k\<close> written on the segment) and below it (\<open>- k\<close> written),
  \<open>findVerticalLines\<close> over the columns, \<open>findHorizontalLines\<close> over the rows. With
  \<open>minLength > n\<close> no extractor returns a segment.
\<close>

theorem line_extractors_maximal_runs:
  assumes "1 \<le> minLength"
  shows "set (findDiagonalLines matrix minLength) =
           {\<lparr>line_start = Some (s, s + k), line_length = l, line_type = Diagonal, line_k = Some (int k)\<rparr> | s l k.
              1 \<le> k \<and> k < length matrix \<and> minLength \<le> l \<and>
              maximalRun (\<lambda>t. cell matrix t (t + k)) (length matrix - k) s l} \<union>
           {\<lparr>line_start = Some (s + k, s), line_length = l, line_type = Diagonal, line_k = Some (- int k)\<rparr> | s l k.
              1 \<le> k \<and> k < length matrix \<and> minLength \<le> l \<and>
              maximalRun (\<lambda>t. cell matrix (t + k) t) (length matrix - k) s l} \<and>
         set (findVerticalLines matrix minLength) =
           {\<lparr>line_start = Some (s, j), line_length = l, line_type = Vertical, line_k = None\<rparr> | s l j.
              j < length matrix \<and> minLength \<le> l \<and>
              maximalRun (\<lambda>t. cell matrix t j) (length matrix) s l} \<and>
         set (findHorizontalLines matrix minLength) =
           {\<lparr>line_start = Some (i, s), line_length = l, line_type = Horizontal, line_k = None\<rparr> | s l i.
              i < length matrix \<and> minLength \<le> l \<and>
              maximalRun (\<lambda>t. cell matrix i t) (length matrix) s l} \<and>
         distinct (findDiagonalLines matrix minLength) \<and>
         distinct (findVerticalLines matrix minLength) \<and>
         distinct (findHorizontalLines matrix minLength) \<and>
         (length matrix < minLength \<longrightarrow>
            findDiagonalLines matrix minLength = [] \<and>
            findVerticalLines matrix minLength = [] \<and>
            findHorizontalLines matrix minLength = [])"
proof -
  have empty: "findDiagonalLines matrix minLength = [] \<and>
               findVerticalLines matrix minLength = [] \<and>
               findHorizontalLines matrix minLength = []"
    if long: "length matrix < minLength"
  proof -
    have no: "\<not> (minLength \<le> l \<and> maximalRun ones L s l)" if "L \<le> length matrix" for ones L s l
      using maximalRun_length_le[of ones L s l] that long by auto
    have "set (findDiagonalLines matrix minLength) = {}"
      unfolding findDiagonalLines_runs(1)[OF assms] using no by auto
    moreover have "set (findVerticalLines matrix minLength) = {}"
      unfolding findVerticalLines_runs(1)[OF assms] using no by auto
    moreover have "set (findHorizontalLines matrix minLength) = {}"
      unfolding findHorizontalLines_runs(1)[OF assms] using no by auto
    ultimately show ?thesis by simp
  qed
  show ?thesis
    using findDiagonalLines_runs[OF assms, of matrix] findVerticalLines_runs[OF assms, of matrix]
          findHorizontalLines_runs[OF assms, of matrix] empty
    by (intro conjI impI) blast+
qed

theorem line_extractors_maximal_runs_witness:
  "\<lparr>line_start = Some (0, 1), line_length = 3, line_type = Vertical, line_k = None\<rparr>
     \<in> set (findVerticalLines [[1, 1, 1], [1, 1, 1], [0, 1, 1]] 2) \<and>
   \<lparr>line_start = Some (0, 1), line_length = 2, line_type = Vertical, line_k = None\<rparr>
     \<notin> set (findVerticalLines [[1, 1, 1], [1, 1, 1], [0, 1, 1]] 2) \<and>
   distinct (findDiagonalLines [[1, 1, 1], [1, 1, 1], [0, 1, 1]] 2) \<and>
   findHorizontalLines [[1, 1, 1], [1, 1, 1], [0, 1, 1]] 4 = []"
proof -
  define M :: "nat list list" where "M = [[1, 1, 1], [1, 1, 1], [0, 1, 1]]"
  have l: "length M = 3" by (simp add: M_def)
  have c: "cell M 0 1" "cell M 1 1" "cell M 2 1" by (simp_all add: M_def cell_def)
  have "\<forall>t\<in>{0..<3}. cell M t 1"
  proof
    fix t :: nat assume "t \<in> {0..<3}"
    then have "t = 0 \<or> t = 1 \<or> t = 2" by auto
    then show "cell M t 1" using c by auto
  qed
  then have run3: "maximalRun (\<lambda>t. cell M t 1) 3 0 3" by (simp add: maximalRun_def)
  have run2: "\<not> maximalRun (\<lambda>t. cell M t 1) 3 0 2"
  proof
    assume "maximalRun (\<lambda>t. cell M t 1) 3 0 2"
    then have "0 + 2 = (3::nat) \<or> \<not> cell M (0 + 2) 1" unfolding maximalRun_def by blast
    then show False using c(3) by (simp add: numeral_2_eq_2)
  qed
  have h2: "1 \<le> (2::nat)" and h4: "1 \<le> (4::nat)" by simp_all
  note t2 = line_extractors_maximal_runs[OF h2, of M]
  note t4 = line_extractors_maximal_runs[OF h4, of M]
  have v: "set (findVerticalLines M 2) =
           {\<lparr>line_start = Some (s, j), line_length = l, line_type = Vertical, line_k = None\<rparr> | s l j.
              j < length M \<and> 2 \<le> l \<and> maximalRun (\<lambda>t. cell M t j) (length M) s l}"
    by (rule t2[THEN conjunct2, THEN conjunct1])
  have d: "distinct (findDiagonalLines M 2)"
    by (rule t2[THEN conjunct2, THEN conjunct2, THEN conjunct2, THEN conjunct1])
  have "length M < 4 \<longrightarrow>
          findDiagonalLines M 4 = [] \<and> findVerticalLines M 4 = [] \<and> findHorizontalLines M 4 = []"
    by (rule t4[THEN conjunct2, THEN conjunct2, THEN conjunct2, THEN conjunct2, THEN conjunct2,
                THEN conjunct2])
  then have e: "findHorizontalLines M 4 = []" using l by simp
  have in3: "\<lparr>line_start = Some (0, 1), line_length = 3, line_type = Vertical, line_k = None\<rparr>
               \<in> set (findVerticalLines M 2)"
    unfolding v l
    by (rule CollectI, rule exI[of _ 0], rule exI[of _ 3], rule exI[of _ 1],
        intro conjI, rule refl, simp, simp, rule run3)
  have out2: "\<lparr>line_start = Some (0, 1), line_length = 2, line_type = Vertical, line_k = None\<rparr>
               \<notin> set (findVerticalLines M 2)"
  proof
    assume "\<lparr>line_start = Some (0, 1), line_length = 2, line_type = Vertical, line_k = None\<rparr>
               \<in> set (findVerticalLines M 2)"
    then obtain s l' j where
      eq: "\<lparr>line_start = Some (0, 1), line_length = 2, line_type = Vertical, line_k = None\<rparr> =
           \<lparr>line_start = Some (s, j), line_length = l', line_type = Vertical, line_k = None\<rparr>"
      and m: "maximalRun (\<lambda>t. cell M t j) 3 s l'"
      unfolding v l by blast
    from eq have "s = 0" "j = 1" "l' = 2" by simp_all
    then show False using m run2 by simp
  qed
  show ?thesis using in3 out2 d e unfolding M_def by simp
qed

end
